theory Spec2Isabelle
  imports Complex_Main "HOL-Library.Multiset"
begin

section \<open>The score viewer's row extraction and navigation (ScoreOSMD.jsx)\<close>

text \<open>
  The theory embeds the helpers of the effect in \<^verbatim>\<open>ScoreOSMD.jsx\<close>:
  \<^verbatim>\<open>syncIdxToScroll\<close>, \<^verbatim>\<open>scrollToIdx\<close>, \<^verbatim>\<open>captureRows\<close>, \<^verbatim>\<open>next\<close>, \<^verbatim>\<open>prev\<close>,
  \<^verbatim>\<open>onPointerDown\<close>, \<^verbatim>\<open>onKeyDown\<close> and the resize callback.

  Pixel coordinates are JavaScript numbers. They are modelled as rationals with exact
  arithmetic; every double is a rational, and the sums and differences of the source are
  compared against margins of 2, 4 and 40 pixels. The one product of the source,
  \<^verbatim>\<open>median * 2.2\<close>, has an integer \<open>median\<close>, so the exact product \<open>22 * median / 10\<close> has a
  fractional part among 0, .2, .4, .6, .8 and lies at least a tenth away from every
  rounding boundary of \<^verbatim>\<open>Math.round\<close>: the double product rounds to the same integer as the
  exact one for every pixel distance that a screen can show.
\<close>

subsection \<open>The page as the helpers read it\<close>

text \<open>
  \<open>hasSvg\<close>: \<^verbatim>\<open>hostRef.current?.querySelector("svg")\<close> finds an element.
  \<open>stafflines\<close>: the result of \<^verbatim>\<open>svg.querySelectorAll("g.staffline")\<close>, in document order.
  \<open>offsetY g\<close>: the top of an element that is laid out inside the card, measured from
  the origin of the card's scrolled content (it does not change when the card scrolls);
  \<open>None\<close> for an element that is no longer in the document.
  \<open>cardTop\<close>, \<open>cardLeft\<close>, \<open>cardWidth\<close>: \<^verbatim>\<open>card.getBoundingClientRect()\<close>.
  \<open>scrollTop\<close>: \<^verbatim>\<open>card.scrollTop\<close>.
\<close>

record 'e dom =
  hasSvg :: bool
  stafflines :: "'e list"
  offsetY :: "'e \<Rightarrow> rat option"
  cardTop :: rat
  cardLeft :: rat
  cardWidth :: rat
  scrollTop :: rat

text \<open>\<^verbatim>\<open>g.getBoundingClientRect().top\<close>: the top relative to the window; an element outside
  the document has the zero rectangle.\<close>

definition rectTop :: "'e dom \<Rightarrow> 'e \<Rightarrow> rat" where
  "rectTop d g = (case offsetY d g of None \<Rightarrow> 0 | Some p \<Rightarrow> cardTop d + p - scrollTop d)"

text \<open>The refs of the component: \<^verbatim>\<open>rowsRef.current\<close>, \<^verbatim>\<open>idxRef.current\<close>, and the
  destination of the last \<^verbatim>\<open>card.scrollTo\<close> call.\<close>

record 'e viewer =
  rows :: "'e list"
  idx :: int
  scrollTarget :: "rat option"

definition initial :: "'e viewer" where
  "initial = \<lparr>rows = [], idx = 0, scrollTarget = None\<rparr>"

text \<open>Calling a method on \<^verbatim>\<open>undefined\<close> throws a TypeError.\<close>

datatype error = TypeError

text \<open>\<^verbatim>\<open>xs[i]\<close> is \<^verbatim>\<open>undefined\<close> outside the array.\<close>

definition js_index :: "'a list \<Rightarrow> int \<Rightarrow> 'a option" where
  "js_index xs i = (if 0 \<le> i \<and> i < int (length xs) then Some (xs ! nat i) else None)"

text \<open>\<^verbatim>\<open>Math.round\<close>: the nearest integer, a tie going up.\<close>

definition Math_round :: "rat \<Rightarrow> int" where
  "Math_round x = \<lfloor>x + 1 / 2\<rfloor>"

subsection \<open>syncIdxToScroll\<close>

text \<open>The loop \<^verbatim>\<open>for (let i = 0; i < rows.length; i++) { ...; if (y <= target) best = i; else break; }\<close>
  with its variables \<open>i\<close> and \<open>best\<close>.\<close>

function sync_loop :: "'e dom \<Rightarrow> 'e list \<Rightarrow> rat \<Rightarrow> rat \<Rightarrow> nat \<Rightarrow> int \<Rightarrow> error + int" where
  "sync_loop d rs cardBoxTop target i best =
     (if i < length rs then
        (case js_index rs (int i) of
           None \<Rightarrow> Inl TypeError
         | Some r \<Rightarrow>
             let yv = rectTop d r - cardBoxTop + scrollTop d in
             if yv \<le> target then sync_loop d rs cardBoxTop target (i + 1) (int i)
             else Inr best)
      else Inr best)"
  by pat_completeness auto
termination
  by (relation "measure (\<lambda>(d, rs, c, t, i, b). length rs - i)") auto

declare sync_loop.simps [simp del]

definition syncIdxToScroll :: "'e dom \<Rightarrow> 'e viewer \<Rightarrow> error + 'e viewer" where
  "syncIdxToScroll d s =
     (if rows s = [] then Inr s
      else
        let cardBoxTop = cardTop d;
            target = scrollTop d + 4
        in case sync_loop d (rows s) cardBoxTop target 0 0 of
             Inl e \<Rightarrow> Inl e
           | Inr best \<Rightarrow> Inr (s\<lparr>idx := best\<rparr>))"

subsection \<open>scrollToIdx\<close>

definition scrollToIdx :: "'e dom \<Rightarrow> 'e viewer \<Rightarrow> int \<Rightarrow> error + 'e viewer" where
  "scrollToIdx d s i =
     (if rows s = [] then Inr s
      else
        let clamped = max 0 (min i (int (length (rows s)) - 1))
        in case js_index (rows s) clamped of
             None \<Rightarrow> Inl TypeError
           | Some e \<Rightarrow>
               let targetTop = rectTop d e - cardTop d + scrollTop d
               in Inr (s\<lparr>idx := clamped, scrollTarget := Some targetTop\<rparr>))"

text \<open>The smooth scroll that \<^verbatim>\<open>card.scrollTo\<close> starts has ended at the requested top.\<close>

definition settle :: "'e dom \<Rightarrow> 'e viewer \<Rightarrow> 'e dom" where
  "settle d s = (case scrollTarget s of None \<Rightarrow> d | Some t \<Rightarrow> d\<lparr>scrollTop := t\<rparr>)"

subsection \<open>captureRows\<close>

record 'e bucket =
  b_y :: int
  b_el :: 'e

definition EPS_SMALL :: int where
  "EPS_SMALL = 2"

text \<open>One pass of the loop over the staff lines: \<^verbatim>\<open>buckets.find\<close> returns the first bucket
  within the tolerance; without one a new bucket is pushed.\<close>

definition add_staffline :: "'e dom \<Rightarrow> 'e bucket list \<Rightarrow> 'e \<Rightarrow> 'e bucket list" where
  "add_staffline d buckets g =
     (let yv = Math_round (rectTop d g)
      in case find (\<lambda>it. \<bar>b_y it - yv\<bar> < EPS_SMALL) buckets of
           Some b \<Rightarrow> buckets
         | None \<Rightarrow> buckets @ [\<lparr>b_y = yv, b_el = g\<rparr>])"

definition bucketize :: "'e dom \<Rightarrow> 'e list \<Rightarrow> 'e bucket list" where
  "bucketize d gs = foldl (add_staffline d) [] gs"

text \<open>\<^verbatim>\<open>buckets.sort((a, b) => a.y - b.y)\<close>: the stable sort by \<open>y\<close>.\<close>

definition sorted_buckets :: "'e dom \<Rightarrow> 'e bucket list" where
  "sorted_buckets d = sort_key b_y (bucketize d (stafflines d))"

definition deltas :: "'e bucket list \<Rightarrow> int list" where
  "deltas buckets = map (\<lambda>i. b_y (buckets ! i) - b_y (buckets ! (i - 1))) [1..<length buckets]"

text \<open>\<^verbatim>\<open>deltas.sort((a, b) => a - b)\<close> and the element at \<^verbatim>\<open>(deltas.length - 1) >> 1\<close>.\<close>

definition median :: "int list \<Rightarrow> int" where
  "median ds = (if ds \<noteq> [] then sort ds ! ((length ds - 1) div 2) else 0)"

definition GAP :: "'e bucket list \<Rightarrow> int" where
  "GAP buckets = max 40 (Math_round (of_int (median (deltas buckets)) * (22 / 10)))"

definition pick_rows :: "'e bucket list \<Rightarrow> 'e list" where
  "pick_rows buckets =
     map (\<lambda>i. b_el (buckets ! i))
       (filter (\<lambda>i. i = 0 \<or> b_y (buckets ! i) - b_y (buckets ! (i - 1)) > GAP buckets)
          [0..<length buckets])"

definition captureRows :: "'e dom \<Rightarrow> 'e viewer \<Rightarrow> error + 'e viewer" where
  "captureRows d s =
     (let s0 = s\<lparr>rows := []\<rparr>
      in if \<not> hasSvg d then Inr s0
         else syncIdxToScroll d (s0\<lparr>rows := pick_rows (sorted_buckets d)\<rparr>))"

subsection \<open>Navigation and input\<close>

text \<open>\<^verbatim>\<open>next\<close> and \<^verbatim>\<open>prev\<close>; \<open>step\<close> is the prop of the component.\<close>

definition nav_next :: "'e dom \<Rightarrow> int \<Rightarrow> 'e viewer \<Rightarrow> error + 'e viewer" where
  "nav_next d step s = scrollToIdx d s (idx s + step)"

definition nav_prev :: "'e dom \<Rightarrow> int \<Rightarrow> 'e viewer \<Rightarrow> error + 'e viewer" where
  "nav_prev d step s = scrollToIdx d s (idx s - step)"

record pointerEvent =
  button :: int
  clientX :: rat

definition onPointerDown :: "'e dom \<Rightarrow> int \<Rightarrow> 'e viewer \<Rightarrow> pointerEvent \<Rightarrow> error + 'e viewer" where
  "onPointerDown d step s e =
     (if button e \<noteq> 0 then Inr s
      else if clientX e - cardLeft d \<ge> cardWidth d / 2 then nav_next d step s
      else nav_prev d step s)"

text \<open>\<open>onKeyDown\<close> returns the state together with whether \<^verbatim>\<open>e.preventDefault()\<close> was called.\<close>

definition onKeyDown :: "'e dom \<Rightarrow> int \<Rightarrow> 'e viewer \<Rightarrow> string \<Rightarrow> error + ('e viewer \<times> bool)" where
  "onKeyDown d step s key =
     (if key \<in> set [''ArrowDown'', ''PageDown'', '' ''] then
        (case nav_next d step s of Inl e \<Rightarrow> Inl e | Inr s' \<Rightarrow> Inr (s', True))
      else if key \<in> set [''ArrowUp'', ''PageUp''] then
        (case nav_prev d step s of Inl e \<Rightarrow> Inl e | Inr s' \<Rightarrow> Inr (s', True))
      else Inr (s, False))"

definition onScroll :: "'e dom \<Rightarrow> 'e viewer \<Rightarrow> error + 'e viewer" where
  "onScroll d s = syncIdxToScroll d s"

text \<open>After the first render: \<^verbatim>\<open>captureRows(); if (rowsRef.current[0]) scrollToIdx(0);\<close>\<close>

definition firstRender :: "'e dom \<Rightarrow> 'e viewer \<Rightarrow> error + 'e viewer" where
  "firstRender d s =
     (case captureRows d s of
        Inl e \<Rightarrow> Inl e
      | Inr s1 \<Rightarrow> (case js_index (rows s1) 0 of None \<Rightarrow> Inr s1 | Some r \<Rightarrow> scrollToIdx d s1 0))"

text \<open>The ResizeObserver callback: \<^verbatim>\<open>captureRows(); scrollToIdx(idxRef.current);\<close>\<close>

definition onResize :: "'e dom \<Rightarrow> 'e viewer \<Rightarrow> error + 'e viewer" where
  "onResize d s =
     (case captureRows d s of
        Inl e \<Rightarrow> Inl e
      | Inr s1 \<Rightarrow> scrollToIdx d s1 (idx s1))"

subsection \<open>Quantities the properties speak about\<close>

text \<open>The position of an anchor as both helpers compute it:
  \<^verbatim>\<open>rows[i].getBoundingClientRect().top - cardBoxTop + card.scrollTop\<close>.\<close>

definition rowY :: "'e dom \<Rightarrow> 'e \<Rightarrow> rat" where
  "rowY d r = rectTop d r - cardTop d + scrollTop d"

text \<open>The threshold as the specification words it: the consecutive gaps are the
  differences between adjacent bucket coordinates; the median of the sorted gaps is the
  lower of the two middle elements on even counts, and 0 when there are no gaps; the
  threshold is \<open>max(40, round(median * 2.2))\<close>.\<close>

definition adjacent_gaps :: "int list \<Rightarrow> int list" where
  "adjacent_gaps ys = map2 (\<lambda>a b. b - a) ys (tl ys)"

definition lower_median :: "int list \<Rightarrow> int" where
  "lower_median xs =
     (let zs = sort xs; m = length zs
      in if even m then zs ! (m div 2 - 1) else zs ! (m div 2))"

definition spec_GAP :: "int list \<Rightarrow> int" where
  "spec_GAP ys =
     (let gaps = adjacent_gaps ys;
          med = (if gaps = [] then 0 else lower_median gaps)
      in max 40 (round (of_int med * (22 / 10) :: rat)))"

text \<open>The indices at which the last loop of \<open>captureRows\<close> pushes an anchor.\<close>

definition picked :: "'e bucket list \<Rightarrow> nat list" where
  "picked bs = filter (\<lambda>i. i = 0 \<or> b_y (bs ! i) - b_y (bs ! (i - 1)) > GAP bs) [0..<length bs]"

text \<open>A synthetic page of systems with \<open>n\<close> staff lines each and spacing \<open>w\<close> inside a
  system: counted from the top, line \<open>i\<close> is line \<open>i mod n\<close> of system \<open>i div n\<close>, and
  system \<open>j\<close> starts at \<open>start j\<close>.\<close>

definition lineY :: "(nat \<Rightarrow> int) \<Rightarrow> nat \<Rightarrow> int \<Rightarrow> nat \<Rightarrow> int" where
  "lineY start n w i = start (i div n) + int (i mod n) * w"

subsection \<open>Example pages and states\<close>

text \<open>The example of the specification: twelve staff lines at 0, 10, 20, 30, 100, ..., 230
  (three systems of four lines), in a card whose box starts at the top of the window.\<close>

definition score3 :: "nat dom" where
  "score3 = \<lparr>hasSvg = True, stafflines = [0, 1, 2, 3, 4, 5, 6, 7, 8, 9, 10, 11],
     offsetY = (\<lambda>g. if g < 12 then Some (of_nat (100 * (g div 4) + 10 * (g mod 4))) else None),
     cardTop = 0, cardLeft = 0, cardWidth = 800, scrollTop = 0\<rparr>"

text \<open>The state after \<open>captureRows\<close> on that page, and the same anchors with the index on
  the last row.\<close>

definition at_first :: "nat viewer" where
  "at_first = \<lparr>rows = [0, 4, 8], idx = 0, scrollTarget = None\<rparr>"

definition at_last :: "nat viewer" where
  "at_last = \<lparr>rows = [0, 4, 8], idx = 2, scrollTarget = None\<rparr>"

text \<open>The same page scrolled down by 100 pixels, which puts the second system at the top
  edge of the card.\<close>

definition scrolled3 :: "nat dom" where
  "scrolled3 = score3\<lparr>scrollTop := 100\<rparr>"

text \<open>A reflow: before it the score had five systems and the index was on the last one;
  the anchors of that layout are no longer in the document. After it the page is the
  three-system example again, and the shorter content leaves the card at scroll offset 150.\<close>

definition stale5 :: "nat viewer" where
  "stale5 = \<lparr>rows = [100, 101, 102, 103, 104], idx = 4, scrollTarget = None\<rparr>"

definition reflowed3 :: "nat dom" where
  "reflowed3 = score3\<lparr>scrollTop := 150\<rparr>"

definition resized3 :: "nat viewer" where
  "resized3 = \<lparr>rows = [0, 4, 8], idx = 1, scrollTarget = Some 100\<rparr>"

text \<open>Three staff lines with tops 10.2, 11.1 and 13.\<close>

definition jitter3 :: "nat dom" where
  "jitter3 = \<lparr>hasSvg = True, stafflines = [0, 1, 2],
     offsetY = (\<lambda>g. if g = 0 then Some (51 / 5) else if g = 1 then Some (111 / 10)
                    else if g = 2 then Some 13 else None),
     cardTop = 0, cardLeft = 0, cardWidth = 800, scrollTop = 0\<rparr>"

text \<open>One system of a single staff line, and one system of two staves 20 pixels apart.\<close>

definition single :: "nat dom" where
  "single = \<lparr>hasSvg = True, stafflines = [0],
     offsetY = (\<lambda>g. if g = 0 then Some 12 else None),
     cardTop = 0, cardLeft = 0, cardWidth = 800, scrollTop = 0\<rparr>"

definition pair20 :: "nat dom" where
  "pair20 = \<lparr>hasSvg = True, stafflines = [0, 1],
     offsetY = (\<lambda>g. if g = 0 then Some 0 else if g = 1 then Some 20 else None),
     cardTop = 0, cardLeft = 0, cardWidth = 800, scrollTop = 0\<rparr>"

text \<open>Two systems of two staff lines each, with spacing 10 inside a system and 30 between
  the systems: staff lines at 0, 10, 40 and 50.\<close>

definition tight2 :: "nat dom" where
  "tight2 = \<lparr>hasSvg = True, stafflines = [0, 1, 2, 3],
     offsetY = (\<lambda>g. if g < 4 then Some (of_nat (40 * (g div 2) + 10 * (g mod 2))) else None),
     cardTop = 0, cardLeft = 0, cardWidth = 800, scrollTop = 0\<rparr>"

text \<open>Two systems of one staff line each, 100 pixels apart; and two systems of two staff
  lines each with spacing 20 inside a system and 44 between the systems: staff lines at
  0, 20, 64 and 84.\<close>

definition solo2 :: "nat dom" where
  "solo2 = \<lparr>hasSvg = True, stafflines = [0, 1],
     offsetY = (\<lambda>g. if g < 2 then Some (of_nat (100 * g)) else None),
     cardTop = 0, cardLeft = 0, cardWidth = 800, scrollTop = 0\<rparr>"

definition edge2 :: "nat dom" where
  "edge2 = \<lparr>hasSvg = True, stafflines = [0, 1, 2, 3],
     offsetY = (\<lambda>g. if g < 4 then Some (of_nat (64 * (g div 2) + 20 * (g mod 2))) else None),
     cardTop = 0, cardLeft = 0, cardWidth = 800, scrollTop = 0\<rparr>"

text \<open>The stale anchors of that reflow after \<open>scrollToIdx 2\<close>, and after the scroll sync
  that follows once the card rests at the requested offset.\<close>

definition stale_at2 :: "nat viewer" where
  "stale_at2 = \<lparr>rows = [100, 101, 102, 103, 104], idx = 2, scrollTarget = Some 150\<rparr>"

definition stale_at4 :: "nat viewer" where
  "stale_at4 = \<lparr>rows = [100, 101, 102, 103, 104], idx = 4, scrollTarget = Some 150\<rparr>"

text \<open>Two staff lines with tops 10.4 and 11.6; and three staff lines discovered in the
  order 11, 10, 12.\<close>

definition near2 :: "nat dom" where
  "near2 = \<lparr>hasSvg = True, stafflines = [0, 1],
     offsetY = (\<lambda>g. if g = 0 then Some (52 / 5) else if g = 1 then Some (58 / 5) else None),
     cardTop = 0, cardLeft = 0, cardWidth = 800, scrollTop = 0\<rparr>"

definition order3 :: "nat dom" where
  "order3 = \<lparr>hasSvg = True, stafflines = [0, 1, 2],
     offsetY = (\<lambda>g. if g = 0 then Some 11 else if g = 1 then Some 10
                    else if g = 2 then Some 12 else None),
     cardTop = 0, cardLeft = 0, cardWidth = 800, scrollTop = 0\<rparr>"

section \<open>Properties\<close>

subsection \<open>Array reads and the scroll loop\<close>

lemma js_index_nat: "i < length xs \<Longrightarrow> js_index xs (int i) = Some (xs ! i)"
  by (simp add: js_index_def)

lemma js_index_clamped:
  "xs \<noteq> [] \<Longrightarrow>
   js_index xs (max 0 (min i (int (length xs) - 1))) =
     Some (xs ! nat (max 0 (min i (int (length xs) - 1))))"
  by (cases xs) (auto simp: js_index_def)

text \<open>The loop stops at the first anchor below the target: it counts the leading anchors
  that are at or above it.\<close>

lemma sync_loop_takeWhile:
  "i \<le> length rs \<Longrightarrow>
   sync_loop d rs c t i best =
     Inr (if takeWhile (\<lambda>r. rectTop d r - c + scrollTop d \<le> t) (drop i rs) = [] then best
          else int (i + length (takeWhile (\<lambda>r. rectTop d r - c + scrollTop d \<le> t) (drop i rs))) - 1)"
proof (induction d rs c t i best rule: sync_loop.induct)
  case (1 d rs c t i best)
  show ?case
  proof (cases "i < length rs")
    case False
    with "1.prems" show ?thesis by (simp add: sync_loop.simps)
  next
    case True
    then have dr: "drop i rs = rs ! i # drop (Suc i) rs"
      by (simp add: Cons_nth_drop_Suc)
    have ji: "js_index rs (int i) = Some (rs ! i)" using True by (rule js_index_nat)
    show ?thesis
    proof (cases "rectTop d (rs ! i) - c + scrollTop d \<le> t")
      case False
      then show ?thesis using True ji dr by (subst sync_loop.simps) simp
    next
      case le: True
      have "sync_loop d rs c t (i + 1) (int i) =
        Inr (if takeWhile (\<lambda>r. rectTop d r - c + scrollTop d \<le> t) (drop (i + 1) rs) = [] then int i
          else int (i + 1 + length (takeWhile (\<lambda>r. rectTop d r - c + scrollTop d \<le> t) (drop (i + 1) rs))) - 1)"
        using "1.IH"[OF True ji refl le] True by simp
      then show ?thesis using True ji dr le by (subst sync_loop.simps) simp
    qed
  qed
qed

lemma sync_loop_0:
  "sync_loop d rs c t 0 0 =
     Inr (int (length (takeWhile (\<lambda>r. rectTop d r - c + scrollTop d \<le> t) rs)) - 1 +
          (if takeWhile (\<lambda>r. rectTop d r - c + scrollTop d \<le> t) rs = [] then 1 else 0))"
  using sync_loop_takeWhile[of 0 rs d c t 0] by simp

lemma sync_loop_range:
  assumes "rs \<noteq> []" "sync_loop d rs c t 0 0 = Inr b"
  shows "0 \<le> b \<and> b < int (length rs)"
proof -
  have "length (takeWhile (\<lambda>r. rectTop d r - c + scrollTop d \<le> t) rs) \<le> length rs"
    by (rule length_takeWhile_le)
  then show ?thesis using assms by (auto simp: sync_loop_0 split: if_splits)
qed

lemma syncIdxToScroll_ok:
  "\<exists>s'. syncIdxToScroll d s = Inr s' \<and> rows s' = rows s \<and> scrollTarget s' = scrollTarget s"
  by (simp add: syncIdxToScroll_def sync_loop_0 Let_def)

lemma syncIdxToScroll_range:
  "syncIdxToScroll d s = Inr s' \<Longrightarrow> rows s \<noteq> [] \<Longrightarrow>
   0 \<le> idx s' \<and> idx s' < int (length (rows s'))"
  using sync_loop_range[of "rows s" d "cardTop d" "scrollTop d + 4"]
  by (auto simp: syncIdxToScroll_def Let_def split: sum.splits)

lemma syncIdxToScroll_empty: "rows s = [] \<Longrightarrow> syncIdxToScroll d s = Inr s"
  by (simp add: syncIdxToScroll_def)

lemma scrollToIdx_ok:
  "rows s \<noteq> [] \<Longrightarrow>
   scrollToIdx d s i =
     Inr (s\<lparr>idx := max 0 (min i (int (length (rows s)) - 1)),
            scrollTarget := Some (rectTop d (rows s ! nat (max 0 (min i (int (length (rows s)) - 1))))
                                  - cardTop d + scrollTop d)\<rparr>)"
  by (simp add: scrollToIdx_def js_index_clamped Let_def)

lemma scrollToIdx_empty: "rows s = [] \<Longrightarrow> scrollToIdx d s i = Inr s"
  by (simp add: scrollToIdx_def)

lemma scrollToIdx_total: "\<exists>s'. scrollToIdx d s i = Inr s'"
  by (cases "rows s = []") (simp_all add: scrollToIdx_empty scrollToIdx_ok)

lemma captureRows_ok:
  "\<exists>s'. captureRows d s = Inr s' \<and> scrollTarget s' = scrollTarget s \<and>
     rows s' = (if hasSvg d then pick_rows (sorted_buckets d) else [])"
  using syncIdxToScroll_ok[of d "s\<lparr>rows := pick_rows (sorted_buckets d)\<rparr>"]
  by (auto simp: captureRows_def Let_def)

lemma captureRows_range:
  assumes "captureRows d s = Inr s'" "rows s' \<noteq> []"
  shows "0 \<le> idx s' \<and> idx s' < int (length (rows s'))"
proof -
  from assms captureRows_ok[of d s] have h: "hasSvg d" "rows s' = pick_rows (sorted_buckets d)"
    by (auto split: if_splits)
  with assms have "syncIdxToScroll d (s\<lparr>rows := pick_rows (sorted_buckets d)\<rparr>) = Inr s'"
    by (simp add: captureRows_def Let_def)
  from syncIdxToScroll_range[OF this] assms(2) h(2) show ?thesis by simp
qed

lemma capture_score3: "captureRows score3 initial = Inr at_first"
  by code_simp

subsection \<open>Clamping and the empty anchor list\<close>

text \<open>
  C6. \<open>scrollToIdx\<close> (\<open>gotoIndex\<close>) and \<open>next\<close>/\<open>prev\<close> (\<open>advance\<close> by plus or minus
  \<open>step\<close>) clamp the target index to \<open>[0, rowCount - 1]\<close>: from index 0 a backward move
  stays at 0, from the last index a forward move stays at the last index. While the
  anchor list is empty, as it is before the first extraction, each call returns the
  state unchanged: neither the index nor the scroll target is written.
\<close>

theorem clamp_and_noop:
  "(rows s \<noteq> [] \<longrightarrow>
      (\<exists>s'. scrollToIdx d s i = Inr s' \<and> rows s' = rows s \<and>
            idx s' = max 0 (min i (int (length (rows s)) - 1)) \<and>
            0 \<le> idx s' \<and> idx s' \<le> int (length (rows s)) - 1) \<and>
      (\<exists>s'. nav_next d step s = Inr s' \<and>
            idx s' = max 0 (min (idx s + step) (int (length (rows s)) - 1))) \<and>
      (\<exists>s'. nav_prev d step s = Inr s' \<and>
            idx s' = max 0 (min (idx s - step) (int (length (rows s)) - 1))) \<and>
      (idx s = 0 \<and> 0 \<le> step \<longrightarrow> (\<exists>s'. nav_prev d step s = Inr s' \<and> idx s' = 0)) \<and>
      (idx s = 0 \<and> step \<le> 0 \<longrightarrow> (\<exists>s'. nav_next d step s = Inr s' \<and> idx s' = 0)) \<and>
      (idx s = int (length (rows s)) - 1 \<and> 0 \<le> step \<longrightarrow>
         (\<exists>s'. nav_next d step s = Inr s' \<and> idx s' = int (length (rows s)) - 1)) \<and>
      (idx s = int (length (rows s)) - 1 \<and> step \<le> 0 \<longrightarrow>
         (\<exists>s'. nav_prev d step s = Inr s' \<and> idx s' = int (length (rows s)) - 1))) \<and>
   (rows s = [] \<longrightarrow>
      scrollToIdx d s i = Inr s \<and> nav_next d step s = Inr s \<and> nav_prev d step s = Inr s) \<and>
   scrollToIdx d initial i = Inr initial"
  (is "(_ \<longrightarrow> ?NE) \<and> ?E \<and> ?I")
proof (intro conjI)
  show ?E
    by (simp add: nav_next_def nav_prev_def scrollToIdx_empty)
  show ?I
    by (simp add: scrollToIdx_empty initial_def)
  show "rows s \<noteq> [] \<longrightarrow> ?NE"
  proof
    assume r: "rows s \<noteq> []"
    then have len: "0 < int (length (rows s))" by simp
    show ?NE
      using len by (auto simp: nav_next_def nav_prev_def scrollToIdx_ok[OF r])
  qed
qed

theorem clamp_and_noop_witness:
  "rows at_first \<noteq> [] \<and> idx at_first = 0 \<and> (0::int) \<le> 2 \<and>
   (\<exists>s'. nav_prev score3 2 at_first = Inr s' \<and> idx s' = 0) \<and>
   idx at_last = int (length (rows at_last)) - 1 \<and>
   (\<exists>s'. nav_next score3 2 at_last = Inr s' \<and> idx s' = 2) \<and>
   rows (initial :: nat viewer) = [] \<and> nav_next score3 2 initial = Inr initial"
  using clamp_and_noop[of at_first score3 0 2] clamp_and_noop[of initial score3 0 2]
    clamp_and_noop[of at_last score3 0 2]
  by (simp add: at_first_def at_last_def initial_def)

subsection \<open>The index stays inside the anchor list\<close>

text \<open>
  C9. Each operation that writes the current index (\<open>scrollToIdx\<close>, \<open>syncIdxToScroll\<close>,
  and \<open>captureRows\<close>, which ends with \<open>syncIdxToScroll\<close>) returns normally, and when the
  anchor list it leaves is not empty the current index is an integer in
  \<open>[0, rowCount - 1]\<close>.
\<close>

theorem index_in_range:
  "(\<exists>s'. scrollToIdx d s i = Inr s' \<and>
          (rows s' \<noteq> [] \<longrightarrow> 0 \<le> idx s' \<and> idx s' \<le> int (length (rows s')) - 1)) \<and>
   (\<exists>s'. syncIdxToScroll d s = Inr s' \<and>
          (rows s' \<noteq> [] \<longrightarrow> 0 \<le> idx s' \<and> idx s' \<le> int (length (rows s')) - 1)) \<and>
   (\<exists>s'. captureRows d s = Inr s' \<and>
          (rows s' \<noteq> [] \<longrightarrow> 0 \<le> idx s' \<and> idx s' \<le> int (length (rows s')) - 1))"
proof (intro conjI)
  show "\<exists>s'. scrollToIdx d s i = Inr s' \<and>
          (rows s' \<noteq> [] \<longrightarrow> 0 \<le> idx s' \<and> idx s' \<le> int (length (rows s')) - 1)"
  proof (cases "rows s = []")
    case True
    then show ?thesis by (simp add: scrollToIdx_empty)
  next
    case False
    then have "0 < int (length (rows s))" by simp
    then show ?thesis by (auto simp: scrollToIdx_ok[OF False])
  qed
next
  obtain s' where s': "syncIdxToScroll d s = Inr s'" "rows s' = rows s"
    using syncIdxToScroll_ok[of d s] by blast
  then show "\<exists>s'. syncIdxToScroll d s = Inr s' \<and>
          (rows s' \<noteq> [] \<longrightarrow> 0 \<le> idx s' \<and> idx s' \<le> int (length (rows s')) - 1)"
    using syncIdxToScroll_range[OF s'(1)] by auto
next
  obtain s' where s': "captureRows d s = Inr s'"
    using captureRows_ok[of d s] by blast
  then show "\<exists>s'. captureRows d s = Inr s' \<and>
          (rows s' \<noteq> [] \<longrightarrow> 0 \<le> idx s' \<and> idx s' \<le> int (length (rows s')) - 1)"
    using captureRows_range[OF s'] by auto
qed

theorem index_in_range_witness:
  "\<exists>s'. captureRows score3 initial = Inr s' \<and> rows s' \<noteq> [] \<and>
        0 \<le> idx s' \<and> idx s' \<le> int (length (rows s')) - 1"
proof -
  from index_in_range[of score3 initial 0] obtain s' where
    a: "captureRows score3 initial = Inr s'" and
    b: "rows s' \<noteq> [] \<longrightarrow> 0 \<le> idx s' \<and> idx s' \<le> int (length (rows s')) - 1"
    by blast
  from a capture_score3 have "s' = at_first" by simp
  then have "rows s' \<noteq> []" by (simp add: at_first_def)
  with a b show ?thesis by blast
qed

subsection \<open>Keys\<close>

text \<open>
  C8. On a key event, Down-arrow, Page-Down and Space suppress the default action and
  move forward by \<open>step\<close> (\<open>scrollToIdx (idx + step)\<close>); Up-arrow and Page-Up suppress it
  and move backward by \<open>step\<close>; every other key leaves the state as it is, without a
  scroll and without suppressing the default action.
\<close>

theorem key_bindings:
  "(key \<in> {''ArrowDown'', ''PageDown'', '' ''} \<longrightarrow>
      (\<exists>s'. scrollToIdx d s (idx s + step) = Inr s' \<and> onKeyDown d step s key = Inr (s', True))) \<and>
   (key \<in> {''ArrowUp'', ''PageUp''} \<longrightarrow>
      (\<exists>s'. scrollToIdx d s (idx s - step) = Inr s' \<and> onKeyDown d step s key = Inr (s', True))) \<and>
   (key \<notin> {''ArrowDown'', ''PageDown'', '' '', ''ArrowUp'', ''PageUp''} \<longrightarrow>
      onKeyDown d step s key = Inr (s, False))"
proof (intro conjI impI)
  assume k: "key \<in> {''ArrowDown'', ''PageDown'', '' ''}"
  obtain s' where "scrollToIdx d s (idx s + step) = Inr s'"
    using scrollToIdx_total by blast
  with k show "\<exists>s'. scrollToIdx d s (idx s + step) = Inr s' \<and> onKeyDown d step s key = Inr (s', True)"
    by (auto simp: onKeyDown_def nav_next_def)
next
  assume k: "key \<in> {''ArrowUp'', ''PageUp''}"
  obtain s' where "scrollToIdx d s (idx s - step) = Inr s'"
    using scrollToIdx_total by blast
  with k show "\<exists>s'. scrollToIdx d s (idx s - step) = Inr s' \<and> onKeyDown d step s key = Inr (s', True)"
    by (auto simp: onKeyDown_def nav_prev_def)
next
  assume "key \<notin> {''ArrowDown'', ''PageDown'', '' '', ''ArrowUp'', ''PageUp''}"
  then show "onKeyDown d step s key = Inr (s, False)"
    by (simp add: onKeyDown_def)
qed

theorem key_bindings_witness:
  "onKeyDown score3 1 at_first '' '' = Inr (\<lparr>rows = [0, 4, 8], idx = 1, scrollTarget = Some 100\<rparr>, True) \<and>
   onKeyDown score3 1 at_last ''PageUp'' = Inr (\<lparr>rows = [0, 4, 8], idx = 1, scrollTarget = Some 100\<rparr>, True) \<and>
   onKeyDown score3 1 at_first ''Enter'' = Inr (at_first, False)"
proof -
  have n: "scrollToIdx score3 at_first (idx at_first + 1) = Inr \<lparr>rows = [0, 4, 8], idx = 1, scrollTarget = Some 100\<rparr>"
    by (simp add: scrollToIdx_def at_first_def js_index_def rectTop_def score3_def)
  have p: "scrollToIdx score3 at_last (idx at_last - 1) = Inr \<lparr>rows = [0, 4, 8], idx = 1, scrollTarget = Some 100\<rparr>"
    by (simp add: scrollToIdx_def at_last_def js_index_def rectTop_def score3_def)
  have k1: "'' '' \<in> {''ArrowDown'', ''PageDown'', '' ''}" by simp
  have k2: "''PageUp'' \<in> {''ArrowUp'', ''PageUp''}" by simp
  have k3: "''Enter'' \<notin> {''ArrowDown'', ''PageDown'', '' '', ''ArrowUp'', ''PageUp''}" by simp
  from key_bindings[of "'' ''" score3 at_first 1, THEN conjunct1, rule_format, OF k1]
  obtain s1 where "scrollToIdx score3 at_first (idx at_first + 1) = Inr s1"
    and "onKeyDown score3 1 at_first '' '' = Inr (s1, True)" by blast
  with n have a: "onKeyDown score3 1 at_first '' '' = Inr (\<lparr>rows = [0, 4, 8], idx = 1, scrollTarget = Some 100\<rparr>, True)"
    by simp
  from key_bindings[of "''PageUp''" score3 at_last 1, THEN conjunct2, THEN conjunct1, rule_format, OF k2]
  obtain s2 where "scrollToIdx score3 at_last (idx at_last - 1) = Inr s2"
    and "onKeyDown score3 1 at_last ''PageUp'' = Inr (s2, True)" by blast
  with p have b: "onKeyDown score3 1 at_last ''PageUp'' = Inr (\<lparr>rows = [0, 4, 8], idx = 1, scrollTarget = Some 100\<rparr>, True)"
    by simp
  from key_bindings[of "''Enter''" score3 at_first 1, THEN conjunct2, THEN conjunct2, rule_format, OF k3]
  have c: "onKeyDown score3 1 at_first ''Enter'' = Inr (at_first, False)" .
  from a b c show ?thesis by blast
qed

subsection \<open>Pointer\<close>

text \<open>
  C10. A primary-button pointerdown whose X coordinate is exactly at the horizontal
  midpoint of the card counts as the right half and moves forward by \<open>step\<close>, since the
  test is \<open>clientX - rect.left \<ge> rect.width / 2\<close>; a tap strictly left of the midpoint
  moves backward by \<open>step\<close>; any other button does nothing.
\<close>

theorem pointer_split:
  "(button e = 0 \<and> clientX e - cardLeft d = cardWidth d / 2 \<longrightarrow>
      onPointerDown d step s e = scrollToIdx d s (idx s + step)) \<and>
   (button e = 0 \<and> clientX e - cardLeft d \<ge> cardWidth d / 2 \<longrightarrow>
      onPointerDown d step s e = scrollToIdx d s (idx s + step)) \<and>
   (button e = 0 \<and> clientX e - cardLeft d < cardWidth d / 2 \<longrightarrow>
      onPointerDown d step s e = scrollToIdx d s (idx s - step)) \<and>
   (button e \<noteq> 0 \<longrightarrow> onPointerDown d step s e = Inr s)"
  by (simp add: onPointerDown_def nav_next_def nav_prev_def)

theorem pointer_split_witness:
  "onPointerDown score3 1 at_first \<lparr>button = 0, clientX = 400\<rparr> =
     Inr \<lparr>rows = [0, 4, 8], idx = 1, scrollTarget = Some 100\<rparr> \<and>
   onPointerDown score3 1 at_last \<lparr>button = 0, clientX = 399\<rparr> =
     Inr \<lparr>rows = [0, 4, 8], idx = 1, scrollTarget = Some 100\<rparr> \<and>
   onPointerDown score3 1 at_last \<lparr>button = 2, clientX = 399\<rparr> = Inr at_last"
proof -
  have n: "scrollToIdx score3 at_first (idx at_first + 1) = Inr \<lparr>rows = [0, 4, 8], idx = 1, scrollTarget = Some 100\<rparr>"
    by (simp add: scrollToIdx_def at_first_def js_index_def rectTop_def score3_def)
  have p: "scrollToIdx score3 at_last (idx at_last - 1) = Inr \<lparr>rows = [0, 4, 8], idx = 1, scrollTarget = Some 100\<rparr>"
    by (simp add: scrollToIdx_def at_last_def js_index_def rectTop_def score3_def)
  have g1: "button \<lparr>button = 0, clientX = 400\<rparr> = 0 \<and>
            clientX \<lparr>button = 0, clientX = 400\<rparr> - cardLeft score3 = cardWidth score3 / 2"
    by (simp add: score3_def)
  have g2: "button \<lparr>button = 0, clientX = 399\<rparr> = 0 \<and>
            clientX \<lparr>button = 0, clientX = 399\<rparr> - cardLeft score3 < cardWidth score3 / 2"
    by (simp add: score3_def)
  have g3: "button \<lparr>button = 2, clientX = 399\<rparr> \<noteq> 0" by simp
  from pointer_split[of "\<lparr>button = 0, clientX = 400\<rparr>" score3 1 at_first] g1 n
  have a: "onPointerDown score3 1 at_first \<lparr>button = 0, clientX = 400\<rparr> =
     Inr \<lparr>rows = [0, 4, 8], idx = 1, scrollTarget = Some 100\<rparr>" by simp
  from pointer_split[of "\<lparr>button = 0, clientX = 399\<rparr>" score3 1 at_last] g2 p
  have b: "onPointerDown score3 1 at_last \<lparr>button = 0, clientX = 399\<rparr> =
     Inr \<lparr>rows = [0, 4, 8], idx = 1, scrollTarget = Some 100\<rparr>" by simp
  from pointer_split[of "\<lparr>button = 2, clientX = 399\<rparr>" score3 1 at_last] g3
  have c: "onPointerDown score3 1 at_last \<lparr>button = 2, clientX = 399\<rparr> = Inr at_last" by blast
  from a b c show ?thesis by blast
qed

subsection \<open>The index that the scroll offset implies\<close>

lemma syncIdxToScroll_idx:
  "rows s \<noteq> [] \<Longrightarrow>
   syncIdxToScroll d s =
     Inr (s\<lparr>idx := int (length (takeWhile (\<lambda>r. rowY d r \<le> scrollTop d + 4) (rows s))) - 1 +
              (if takeWhile (\<lambda>r. rowY d r \<le> scrollTop d + 4) (rows s) = [] then 1 else 0)\<rparr>)"
  by (simp add: syncIdxToScroll_def sync_loop_0 Let_def rowY_def)

text \<open>
  C5. \<open>syncIdxToScroll\<close> never throws, whatever the anchors and the layout are (also for
  anchors that are stale or no longer in the document), and writes nothing but the
  index. With the anchors in top-to-bottom order it sets the index to the last anchor
  whose position is at or above \<open>scrollTop + 4\<close>: that anchor is at or above the biased
  offset and every later anchor is below it. (Without the ordering it is the end of the
  leading run of such anchors; the index is 0 when the first anchor is already below;
  an empty anchor list leaves the state as it is.)
\<close>

theorem sync_last_anchor:
  "\<exists>s'. syncIdxToScroll d s = Inr s' \<and> rows s' = rows s \<and> scrollTarget s' = scrollTarget s \<and>
     (rows s = [] \<longrightarrow> s' = s) \<and>
     (rows s \<noteq> [] \<longrightarrow> 0 \<le> idx s' \<and> idx s' < int (length (rows s))) \<and>
     (rows s \<noteq> [] \<and> rowY d (rows s ! 0) \<le> scrollTop d + 4 \<longrightarrow>
        (\<forall>j. j \<le> nat (idx s') \<longrightarrow> rowY d (rows s ! j) \<le> scrollTop d + 4) \<and>
        (nat (idx s') + 1 < length (rows s) \<longrightarrow>
           scrollTop d + 4 < rowY d (rows s ! (nat (idx s') + 1)))) \<and>
     (rows s \<noteq> [] \<and> sorted (map (rowY d) (rows s)) \<and>
      (\<exists>r \<in> set (rows s). rowY d r \<le> scrollTop d + 4) \<longrightarrow>
        rowY d (rows s ! nat (idx s')) \<le> scrollTop d + 4 \<and>
        (\<forall>j. nat (idx s') < j \<and> j < length (rows s) \<longrightarrow>
           scrollTop d + 4 < rowY d (rows s ! j))) \<and>
     (rows s \<noteq> [] \<and> scrollTop d + 4 < rowY d (rows s ! 0) \<longrightarrow> idx s' = 0)"
proof (cases "rows s = []")
  case True
  then show ?thesis by (simp add: syncIdxToScroll_empty)
next
  case ne: False
  define P where "P = (\<lambda>r. rowY d r \<le> scrollTop d + 4)"
  define n where "n = length (takeWhile P (rows s))"
  define s' where "s' = s\<lparr>idx := int n - 1 + (if takeWhile P (rows s) = [] then 1 else 0)\<rparr>"
  have run: "syncIdxToScroll d s = Inr s'"
    using syncIdxToScroll_idx[OF ne, of d] by (simp add: s'_def n_def P_def)
  have nle: "n \<le> length (rows s)"
    unfolding n_def by (rule length_takeWhile_le)
  have len: "0 < length (rows s)" using ne by simp
  have n0: "n = 0 \<longleftrightarrow> takeWhile P (rows s) = []" by (simp add: n_def)
  have idx: "idx s' = (if n = 0 then 0 else int n - 1)"
    using n0 by (simp add: s'_def)
  have range: "0 \<le> idx s' \<and> idx s' < int (length (rows s))"
    using nle len by (auto simp: idx)
  have before: "P (rows s ! j)" if "j < n" for j
  proof -
    have "takeWhile P (rows s) ! j \<in> set (takeWhile P (rows s))"
      using that by (simp add: n_def)
    then have "P (takeWhile P (rows s) ! j)" by (rule set_takeWhileD[THEN conjunct2])
    then show ?thesis using that by (simp add: n_def takeWhile_nth)
  qed
  have after: "\<not> P (rows s ! n)" if "n < length (rows s)"
    using that nth_length_takeWhile[of P "rows s"] by (simp add: n_def)
  have first: "0 < n" if "P (rows s ! 0)"
  proof (rule ccontr)
    assume "\<not> 0 < n"
    then have "n = 0" by simp
    with after len that show False by simp
  qed
  have lead: "(\<forall>j. j \<le> nat (idx s') \<longrightarrow> P (rows s ! j)) \<and>
        (nat (idx s') + 1 < length (rows s) \<longrightarrow> \<not> P (rows s ! (nat (idx s') + 1)))"
    if "P (rows s ! 0)"
  proof -
    from first[OF that] have i: "nat (idx s') = n - 1" "nat (idx s') + 1 = n"
      by (simp_all add: idx)
    show ?thesis using before after first[OF that] unfolding i by auto
  qed
  have srt: "P (rows s ! nat (idx s')) \<and>
        (\<forall>j. nat (idx s') < j \<and> j < length (rows s) \<longrightarrow> \<not> P (rows s ! j))"
    if so: "sorted (map (rowY d) (rows s))" and ex: "\<exists>r \<in> set (rows s). P r"
  proof -
    from ex obtain k where k: "k < length (rows s)" "P (rows s ! k)"
      by (auto simp: in_set_conv_nth)
    have "rowY d (rows s ! 0) \<le> rowY d (rows s ! k)"
      using sorted_nth_mono[OF so, of 0 k] k(1) len by simp
    with k(2) have p0: "P (rows s ! 0)" by (simp add: P_def)
    from first[OF p0] have i: "nat (idx s') = n - 1" by (simp add: idx)
    have "\<not> P (rows s ! j)" if j: "n - 1 < j" "j < length (rows s)" for j
    proof -
      from j first[OF p0] have nj: "n \<le> j" "n < length (rows s)" by simp_all
      then have "rowY d (rows s ! n) \<le> rowY d (rows s ! j)"
        using sorted_nth_mono[OF so, of n j] j(2) by simp
      with after[OF nj(2)] show ?thesis by (simp add: P_def)
    qed
    with lead[OF p0] show ?thesis unfolding i by auto
  qed
  have none: "idx s' = 0" if "\<not> P (rows s ! 0)"
  proof -
    have "n = 0"
    proof (rule ccontr)
      assume "n \<noteq> 0"
      then have "0 < n" by simp
      from before[OF this] that show False by simp
    qed
    then show ?thesis by (simp add: idx)
  qed
  have eqs: "rows s' = rows s" "scrollTarget s' = scrollTarget s" by (simp_all add: s'_def)
  have nP: "\<not> P r \<longleftrightarrow> scrollTop d + 4 < rowY d r" for r by (auto simp: P_def)
  show ?thesis
  proof (intro exI[of _ s'] conjI impI)
    show "syncIdxToScroll d s = Inr s'" by (rule run)
    show "rows s' = rows s" "scrollTarget s' = scrollTarget s" by (rule eqs)+
    show "s' = s" if "rows s = []" using that ne by simp
    show "0 \<le> idx s'" "idx s' < int (length (rows s))" using range by simp_all
    show "\<forall>j. j \<le> nat (idx s') \<longrightarrow> rowY d (rows s ! j) \<le> scrollTop d + 4"
      if "rows s \<noteq> [] \<and> rowY d (rows s ! 0) \<le> scrollTop d + 4"
      using lead[unfolded P_def] that by blast
    show "scrollTop d + 4 < rowY d (rows s ! (nat (idx s') + 1))"
      if "rows s \<noteq> [] \<and> rowY d (rows s ! 0) \<le> scrollTop d + 4"
         "nat (idx s') + 1 < length (rows s)"
      using lead[unfolded P_def] that by (simp add: not_le)
    show "rowY d (rows s ! nat (idx s')) \<le> scrollTop d + 4"
      if "rows s \<noteq> [] \<and> sorted (map (rowY d) (rows s)) \<and>
          (\<exists>r \<in> set (rows s). rowY d r \<le> scrollTop d + 4)"
      using srt[unfolded P_def] that by blast
    show "\<forall>j. nat (idx s') < j \<and> j < length (rows s) \<longrightarrow> scrollTop d + 4 < rowY d (rows s ! j)"
      if "rows s \<noteq> [] \<and> sorted (map (rowY d) (rows s)) \<and>
          (\<exists>r \<in> set (rows s). rowY d r \<le> scrollTop d + 4)"
      using srt[unfolded P_def] that by (simp add: not_le)
    show "idx s' = 0" if "rows s \<noteq> [] \<and> scrollTop d + 4 < rowY d (rows s ! 0)"
      using none that by (simp add: P_def)
  qed
qed

theorem sync_last_anchor_witness:
  "rows at_first \<noteq> [] \<and> sorted (map (rowY scrolled3) (rows at_first)) \<and>
   (\<exists>r \<in> set (rows at_first). rowY scrolled3 r \<le> scrollTop scrolled3 + 4) \<and>
   rowY scrolled3 (rows at_first ! 0) \<le> scrollTop scrolled3 + 4 \<and>
   (\<exists>s'. syncIdxToScroll scrolled3 at_first = Inr s' \<and> idx s' = 1 \<and>
      rowY scrolled3 (rows at_first ! nat (idx s')) \<le> scrollTop scrolled3 + 4 \<and>
      scrollTop scrolled3 + 4 < rowY scrolled3 (rows at_first ! 2))"
proof -
  have ne: "rows at_first \<noteq> []" by (simp add: at_first_def)
  have ys: "map (rowY scrolled3) (rows at_first) = [0, 100, 200]"
    by (simp add: at_first_def rowY_def rectTop_def scrolled3_def score3_def)
  have so: "sorted (map (rowY scrolled3) (rows at_first))"
    unfolding ys by simp
  have t: "scrollTop scrolled3 + 4 = 104" by (simp add: scrolled3_def)
  have ex: "\<exists>r \<in> set (rows at_first). rowY scrolled3 r \<le> scrollTop scrolled3 + 4"
    using ys t by (simp add: at_first_def)
  have y0: "rowY scrolled3 (rows at_first ! 0) \<le> scrollTop scrolled3 + 4"
    using ys t by (simp add: at_first_def)
  have run: "syncIdxToScroll scrolled3 at_first = Inr (at_first\<lparr>idx := 1\<rparr>)"
    by code_simp
  from sync_last_anchor[of scrolled3 at_first] obtain s' where
    a: "syncIdxToScroll scrolled3 at_first = Inr s'" and
    b: "rows at_first \<noteq> [] \<and> sorted (map (rowY scrolled3) (rows at_first)) \<and>
      (\<exists>r \<in> set (rows at_first). rowY scrolled3 r \<le> scrollTop scrolled3 + 4) \<longrightarrow>
        rowY scrolled3 (rows at_first ! nat (idx s')) \<le> scrollTop scrolled3 + 4 \<and>
        (\<forall>j. nat (idx s') < j \<and> j < length (rows at_first) \<longrightarrow>
           scrollTop scrolled3 + 4 < rowY scrolled3 (rows at_first ! j))"
    by blast
  from a run have "s' = at_first\<lparr>idx := 1\<rparr>" by simp
  then have i: "idx s' = 1" by simp
  from b ne so ex have c: "rowY scrolled3 (rows at_first ! nat (idx s')) \<le> scrollTop scrolled3 + 4"
    and e: "\<forall>j. nat (idx s') < j \<and> j < length (rows at_first) \<longrightarrow>
           scrollTop scrolled3 + 4 < rowY scrolled3 (rows at_first ! j)"
    by blast+
  have "nat (idx s') < 2 \<and> 2 < length (rows at_first)" by (simp add: i at_first_def)
  with e have "scrollTop scrolled3 + 4 < rowY scrolled3 (rows at_first ! 2)" by blast
  with a i c ne so ex y0 show ?thesis by blast
qed

subsection \<open>Buckets and the rows picked from them\<close>

lemma bucketize_snoc: "bucketize d (gs @ [g]) = add_staffline d (bucketize d gs) g"
  by (simp add: bucketize_def)

lemma find_case_const:
  "(case find P xs of None \<Rightarrow> a | Some b \<Rightarrow> c) = (if \<exists>x \<in> set xs. P x then c else a)"
  by (induction xs) auto

lemma add_staffline_cases:
  "add_staffline d bs g =
     (if \<exists>b \<in> set bs. \<bar>b_y b - Math_round (rectTop d g)\<bar> < 2 then bs
      else bs @ [\<lparr>b_y = Math_round (rectTop d g), b_el = g\<rparr>])"
  by (simp add: add_staffline_def Let_def EPS_SMALL_def find_case_const)

lemma bucketize_origin:
  "b \<in> set (bucketize d gs) \<Longrightarrow> b_el b \<in> set gs \<and> b_y b = Math_round (rectTop d (b_el b))"
proof (induction gs arbitrary: b rule: rev_induct)
  case Nil
  then show ?case by (simp add: bucketize_def)
next
  case (snoc g gs)
  then show ?case
    by (auto simp: bucketize_snoc add_staffline_cases split: if_splits)
qed

lemma sorted_buckets_sorted: "sorted (map b_y (sorted_buckets d))"
  by (simp add: sorted_buckets_def)

lemma sorted_buckets_origin:
  "b \<in> set (sorted_buckets d) \<Longrightarrow>
   b_el b \<in> set (stafflines d) \<and> b_y b = Math_round (rectTop d (b_el b))"
  using bucketize_origin[of b d "stafflines d"] by (simp add: sorted_buckets_def)

lemma GAP_floor: "40 \<le> GAP bs"
  by (simp add: GAP_def)

lemma pick_rows_picked: "pick_rows bs = map (\<lambda>i. b_el (bs ! i)) (picked bs)"
  by (simp add: pick_rows_def picked_def)

lemma picked_apart:
  assumes "sorted (map b_y bs)"
  shows "sorted_wrt (\<lambda>i j. b_y (bs ! i) + 40 < b_y (bs ! j)) (picked bs)"
proof -
  have "sorted_wrt (<) (picked bs)"
    unfolding picked_def by (rule sorted_wrt_filter) simp
  moreover have "b_y (bs ! i) + 40 < b_y (bs ! j)"
    if "i \<in> set (picked bs)" "j \<in> set (picked bs)" "i < j" for i j
  proof -
    from that have j: "j < length bs" "b_y (bs ! j) - b_y (bs ! (j - 1)) > GAP bs"
      by (auto simp: picked_def)
    from that j have "i \<le> j - 1" "j - 1 < length bs" by simp_all
    then have "b_y (bs ! i) \<le> b_y (bs ! (j - 1))"
      using sorted_nth_mono[OF assms, of i "j - 1"] by simp
    with j(2) GAP_floor[of bs] show ?thesis by simp
  qed
  ultimately show ?thesis by (rule sorted_wrt_mono_rel[rotated])
qed

lemma Math_round_apart: "Math_round a + 40 < Math_round b \<Longrightarrow> a + 40 < b"
proof -
  assume h: "Math_round a + 40 < Math_round b"
  have "of_int (Math_round b) \<le> b + 1 / 2"
    using floor_correct[of "b + 1 / 2"] by (simp add: Math_round_def)
  moreover have "a + 1 / 2 < of_int (Math_round a) + 1"
    using floor_correct[of "a + 1 / 2"] by (simp add: Math_round_def)
  moreover from h have "Math_round a + 41 \<le> Math_round b" by simp
  then have "(of_int (Math_round a + 41) :: rat) \<le> of_int (Math_round b)"
    by (simp only: of_int_le_iff)
  then have "(of_int (Math_round a) :: rat) + 41 \<le> of_int (Math_round b)" by simp
  ultimately show ?thesis by linarith
qed

lemma picked_in_range: "i \<in> set (picked bs) \<Longrightarrow> i < length bs"
  by (simp add: picked_def)

lemma rows_apart:
  "sorted_wrt (\<lambda>r r'. rectTop d r + 40 < rectTop d r') (pick_rows (sorted_buckets d))"
proof -
  let ?bs = "sorted_buckets d"
  have "sorted_wrt (\<lambda>i j. rectTop d (b_el (?bs ! i)) + 40 < rectTop d (b_el (?bs ! j))) (picked ?bs)"
  proof (rule sorted_wrt_mono_rel[rotated, OF picked_apart[OF sorted_buckets_sorted]])
    fix i j
    assume i: "i \<in> set (picked ?bs)" and j: "j \<in> set (picked ?bs)"
      and ap: "b_y (?bs ! i) + 40 < b_y (?bs ! j)"
    from i j have "?bs ! i \<in> set ?bs" "?bs ! j \<in> set ?bs"
      by (simp_all add: picked_in_range)
    then have "b_y (?bs ! i) = Math_round (rectTop d (b_el (?bs ! i)))"
      "b_y (?bs ! j) = Math_round (rectTop d (b_el (?bs ! j)))"
      by (simp_all add: sorted_buckets_origin)
    with ap show "rectTop d (b_el (?bs ! i)) + 40 < rectTop d (b_el (?bs ! j))"
      by (simp add: Math_round_apart)
  qed
  then show ?thesis by (simp add: pick_rows_picked sorted_wrt_map)
qed

lemma rows_are_stafflines: "set (pick_rows (sorted_buckets d)) \<subseteq> set (stafflines d)"
proof
  fix r assume "r \<in> set (pick_rows (sorted_buckets d))"
  then obtain i where "i \<in> set (picked (sorted_buckets d))" "r = b_el (sorted_buckets d ! i)"
    by (auto simp: pick_rows_picked)
  then show "r \<in> set (stafflines d)"
    using sorted_buckets_origin[of "sorted_buckets d ! i" d] by (simp add: picked_in_range)
qed

lemma rowY_attached: "offsetY d r = Some p \<Longrightarrow> rowY d r = p"
  by (simp add: rowY_def rectTop_def)

lemma rectTop_attached: "offsetY d r = Some p \<Longrightarrow> rectTop d r = cardTop d + p - scrollTop d"
  by (simp add: rectTop_def)

lemma takeWhile_upto_anchor:
  assumes ap: "sorted_wrt (\<lambda>a b. f a + 4 < f b) xs" and c: "c < length xs"
  shows "takeWhile (\<lambda>r. f r \<le> f (xs ! c) + (4::rat)) xs = take (Suc c) xs"
proof (rule takeWhile_eq_take_P_nth)
  fix i assume "i < Suc c" "i < length xs"
  then have "i = c \<or> i < c" by auto
  then show "f (xs ! i) \<le> f (xs ! c) + 4"
  proof
    assume "i = c" then show ?thesis by simp
  next
    assume "i < c"
    then have "f (xs ! i) + 4 < f (xs ! c)"
      using ap c by (simp add: sorted_wrt_iff_nth_less)
    then show ?thesis by simp
  qed
next
  assume "Suc c < length xs"
  then have "f (xs ! c) + 4 < f (xs ! Suc c)"
    using ap by (simp add: sorted_wrt_iff_nth_less)
  then show "\<not> f (xs ! Suc c) \<le> f (xs ! c) + 4" by simp
qed

lemma settled_sync_returns:
  assumes ne: "rows s \<noteq> []"
    and att: "\<forall>r \<in> set (rows s). offsetY d r \<noteq> None"
    and ap: "sorted_wrt (\<lambda>a b. rowY d a + 4 < rowY d b) (rows s)"
  shows "\<exists>s1 s2. scrollToIdx d s i = Inr s1 \<and> idx s1 = max 0 (min i (int (length (rows s)) - 1)) \<and>
           syncIdxToScroll (settle d s1) s1 = Inr s2 \<and> idx s2 = idx s1 \<and> rows s2 = rows s"
proof -
  define c where "c = nat (max 0 (min i (int (length (rows s)) - 1)))"
  define T where "T = rowY d (rows s ! c)"
  define s1 where "s1 = s\<lparr>idx := int c, scrollTarget := Some T\<rparr>"
  have len: "0 < length (rows s)" using ne by simp
  then have c: "c < length (rows s)" "int c = max 0 (min i (int (length (rows s)) - 1))"
    unfolding c_def by linarith+
  have run1: "scrollToIdx d s i = Inr s1"
    using scrollToIdx_ok[OF ne, of d i] c(2) by (simp add: s1_def T_def c_def rowY_def)
  define d' where "d' = settle d s1"
  have d': "d' = d\<lparr>scrollTop := T\<rparr>" by (simp add: d'_def settle_def s1_def)
  have same: "rowY d' r = rowY d r" if "r \<in> set (rows s)" for r
  proof -
    from att that obtain p where p: "offsetY d r = Some p" by auto
    then have "offsetY d' r = Some p" by (simp add: d')
    with p show ?thesis by (simp add: rowY_attached)
  qed
  have "takeWhile (\<lambda>r. rowY d' r \<le> scrollTop d' + 4) (rows s) =
        takeWhile (\<lambda>r. rowY d r \<le> rowY d (rows s ! c) + 4) (rows s)"
  proof (rule takeWhile_cong)
    fix r assume "r \<in> set (rows s)"
    moreover have "scrollTop d' = rowY d (rows s ! c)" by (simp add: d' T_def)
    ultimately show "(rowY d' r \<le> scrollTop d' + 4) = (rowY d r \<le> rowY d (rows s ! c) + 4)"
      by (simp only: same)
  qed simp
  also have "\<dots> = take (Suc c) (rows s)"
    using ap c(1) by (rule takeWhile_upto_anchor)
  finally have tw: "takeWhile (\<lambda>r. rowY d' r \<le> scrollTop d' + 4) (rows s) = take (Suc c) (rows s)" .
  have r1: "rows s1 = rows s" by (simp add: s1_def)
  have run2: "syncIdxToScroll d' s1 = Inr (s1\<lparr>idx := int c\<rparr>)"
    using syncIdxToScroll_idx[of s1 d'] ne c(1) len by (simp add: r1 tw min_def)
  show ?thesis
    using run1 run2 c(2) r1 unfolding d'_def by (intro exI[of _ s1] exI[of _ "s1\<lparr>idx := int c\<rparr>"]) (simp add: s1_def)
qed

lemma captured_rows_apart:
  assumes doc: "\<forall>g \<in> set (stafflines d0). offsetY d0 g \<noteq> None"
    and layout: "offsetY d = offsetY d0"
  shows "sorted_wrt (\<lambda>a b. rowY d a + 4 < rowY d b) (pick_rows (sorted_buckets d0))"
proof (rule sorted_wrt_mono_rel[rotated, OF rows_apart[of d0]])
  fix a b
  assume a: "a \<in> set (pick_rows (sorted_buckets d0))" and b: "b \<in> set (pick_rows (sorted_buckets d0))"
    and ap: "rectTop d0 a + 40 < rectTop d0 b"
  from a b rows_are_stafflines[of d0] doc obtain p q where
    pq: "offsetY d0 a = Some p" "offsetY d0 b = Some q" by blast
  then have "rowY d a = p" "rowY d b = q"
    by (simp_all add: layout rowY_attached)
  moreover from ap pq have "p + 40 < q" by (simp add: rectTop_attached)
  ultimately show "rowY d a + 4 < rowY d b" by simp
qed

subsection \<open>Round trip\<close>

text \<open>
  C2 (as amended). Take the anchors that \<open>captureRows\<close> extracted from a page whose staff
  lines are in the document, and any later state and scroll position of the same layout
  (the anchors are not stale). For every index \<open>i\<close>, \<open>scrollToIdx i\<close> followed, once the
  card has settled at the computed target, by \<open>syncIdxToScroll\<close> yields the index that
  \<open>scrollToIdx\<close> set, which is \<open>i\<close> clamped to \<open>[0, rowCount - 1]\<close>: for every valid \<open>i\<close> it
  is \<open>i\<close> again.
\<close>

theorem round_trip:
  assumes doc: "\<forall>g \<in> set (stafflines d0). offsetY d0 g \<noteq> None"
    and cap: "captureRows d0 s0 = Inr sc"
    and rs: "rows s = rows sc"
    and layout: "offsetY d = offsetY d0"
    and ne: "rows s \<noteq> []"
  shows "\<exists>s1 s2. scrollToIdx d s i = Inr s1 \<and> syncIdxToScroll (settle d s1) s1 = Inr s2 \<and>
           idx s1 = max 0 (min i (int (length (rows s)) - 1)) \<and> idx s2 = idx s1 \<and>
           (0 \<le> i \<and> i \<le> int (length (rows s)) - 1 \<longrightarrow> idx s2 = i)"
proof -
  from cap captureRows_ok[of d0 s0] rs ne have r: "rows s = pick_rows (sorted_buckets d0)"
    by (auto split: if_splits)
  have att: "\<forall>r \<in> set (rows s). offsetY d r \<noteq> None"
    using rows_are_stafflines[of d0] doc by (auto simp: r layout)
  have ap: "sorted_wrt (\<lambda>a b. rowY d a + 4 < rowY d b) (rows s)"
    unfolding r using doc layout by (rule captured_rows_apart)
  from settled_sync_returns[OF ne att ap, of i] obtain s1 s2 where
    "scrollToIdx d s i = Inr s1" "idx s1 = max 0 (min i (int (length (rows s)) - 1))"
    "syncIdxToScroll (settle d s1) s1 = Inr s2" "idx s2 = idx s1"
    by blast
  then show ?thesis by (intro exI[of _ s1] exI[of _ s2]) auto
qed

theorem round_trip_witness:
  "captureRows score3 initial = Inr at_first \<and> offsetY scrolled3 = offsetY score3 \<and>
   rows at_first \<noteq> [] \<and> (0::int) \<le> 2 \<and> 2 \<le> int (length (rows at_first)) - 1 \<and>
   (\<exists>s1 s2. scrollToIdx scrolled3 at_first 2 = Inr s1 \<and>
      syncIdxToScroll (settle scrolled3 s1) s1 = Inr s2 \<and> idx s1 = 2 \<and> idx s2 = 2)"
proof -
  have doc: "\<forall>g \<in> set (stafflines score3). offsetY score3 g \<noteq> None"
    by (simp add: score3_def)
  have layout: "offsetY scrolled3 = offsetY score3" by (simp add: scrolled3_def)
  have ne: "rows at_first \<noteq> []" by (simp add: at_first_def)
  have i: "(0::int) \<le> 2 \<and> 2 \<le> int (length (rows at_first)) - 1" by (simp add: at_first_def)
  from round_trip[OF doc capture_score3 refl layout ne, of 2] obtain s1 s2 where
    a: "scrollToIdx scrolled3 at_first 2 = Inr s1"
       "syncIdxToScroll (settle scrolled3 s1) s1 = Inr s2" and
    b: "idx s1 = max 0 (min 2 (int (length (rows at_first)) - 1))" "idx s2 = idx s1"
    by blast
  from b have "idx s1 = 2" "idx s2 = 2" by (simp_all add: at_first_def)
  with a have "\<exists>s1 s2. scrollToIdx scrolled3 at_first 2 = Inr s1 \<and>
      syncIdxToScroll (settle scrolled3 s1) s1 = Inr s2 \<and> idx s1 = 2 \<and> idx s2 = 2"
    by blast
  with capture_score3 layout ne i show ?thesis by blast
qed

text \<open>
  The claim as it was stated, for every anchor list, fails on stale anchors. After the
  reflow the five old anchors are out of the document and all read the zero rectangle:
  \<open>scrollToIdx 2\<close> sets the index to the valid index 2 and asks for offset 150, and with
  the card settled there every anchor is at or above the biased offset, so
  \<open>syncIdxToScroll\<close> yields 4.
\<close>

theorem round_trip_counterexample:
  "length (rows stale5) = 5 \<and>
   scrollToIdx reflowed3 stale5 2 = Inr stale_at2 \<and> idx stale_at2 = 2 \<and>
   scrollTop (settle reflowed3 stale_at2) = 150 \<and>
   syncIdxToScroll (settle reflowed3 stale_at2) stale_at2 = Inr stale_at4 \<and>
   idx stale_at4 = 4"
proof -
  have "length (rows stale5) = 5" by (simp add: stale5_def)
  moreover have "scrollToIdx reflowed3 stale5 2 = Inr stale_at2" by code_simp
  moreover have "idx stale_at2 = 2" by (simp add: stale_at2_def)
  moreover have "scrollTop (settle reflowed3 stale_at2) = 150"
    by (simp add: settle_def stale_at2_def)
  moreover have "syncIdxToScroll (settle reflowed3 stale_at2) stale_at2 = Inr stale_at4"
    by code_simp
  moreover have "idx stale_at4 = 4" by (simp add: stale_at4_def)
  ultimately show ?thesis by blast
qed

subsection \<open>Resize\<close>

text \<open>
  C7 (as amended). The resize callback (\<open>captureRows\<close>, then \<open>scrollToIdx\<close> of the current
  index) never throws. When the re-extraction yields at least one row, the index ends in
  \<open>[0, r' - 1]\<close>: it is the index that \<open>syncIdxToScroll\<close> computes from the present scroll
  offset over the new anchors, whatever the prior index was (so it is neither reset to
  zero nor derived from the prior index, and it need not be \<open>r' - 1\<close>). When the
  re-extraction yields no row, the index is left as it was.
\<close>

theorem resize_reindex:
  "\<exists>s1 s2. captureRows d s = Inr s1 \<and> onResize d s = Inr s2 \<and>
     rows s2 = rows s1 \<and> idx s2 = idx s1 \<and>
     rows s1 = (if hasSvg d then pick_rows (sorted_buckets d) else []) \<and>
     (rows s1 \<noteq> [] \<longrightarrow>
        0 \<le> idx s2 \<and> idx s2 \<le> int (length (rows s1)) - 1 \<and>
        syncIdxToScroll d (s\<lparr>rows := rows s1\<rparr>) = Inr s1 \<and>
        (\<forall>k. \<exists>s3. onResize d (s\<lparr>idx := k\<rparr>) = Inr s3 \<and> idx s3 = idx s2)) \<and>
     (rows s1 = [] \<longrightarrow> idx s2 = idx s)"
proof -
  obtain s1 where s1: "captureRows d s = Inr s1"
    "rows s1 = (if hasSvg d then pick_rows (sorted_buckets d) else [])"
    using captureRows_ok[of d s] by blast
  show ?thesis
  proof (cases "rows s1 = []")
    case True
    then have "scrollToIdx d s1 (idx s1) = Inr s1" by (rule scrollToIdx_empty)
    then have r: "onResize d s = Inr s1" by (simp add: onResize_def s1)
    have "idx s1 = idx s"
      using s1 True by (auto simp: captureRows_def Let_def syncIdxToScroll_def split: if_splits)
    with s1 r True show ?thesis by (intro exI[of _ s1]) simp
  next
    case False
    then have hs: "hasSvg d" and pr: "pick_rows (sorted_buckets d) \<noteq> []"
      using s1(2) by (auto split: if_splits)
    have sy: "syncIdxToScroll d (s\<lparr>rows := rows s1\<rparr>) = Inr s1"
      using s1 hs by (simp add: captureRows_def Let_def)
    from captureRows_range[OF s1(1) False]
    have rg: "0 \<le> idx s1" "idx s1 \<le> int (length (rows s1)) - 1" by simp_all
    define s2 where "s2 = s1\<lparr>idx := idx s1,
      scrollTarget := Some (rectTop d (rows s1 ! nat (idx s1)) - cardTop d + scrollTop d)\<rparr>"
    have cl: "max 0 (min (idx s1) (int (length (rows s1)) - 1)) = idx s1"
      using rg by simp
    have "scrollToIdx d s1 (idx s1) = Inr s2"
      using scrollToIdx_ok[OF False, of d "idx s1"] unfolding cl by (simp add: s2_def)
    then have r: "onResize d s = Inr s2" by (simp add: onResize_def s1)
    have indep: "\<exists>s3. onResize d (s\<lparr>idx := k\<rparr>) = Inr s3 \<and> idx s3 = idx s2" for k
    proof -
      have c: "captureRows d (s\<lparr>idx := k\<rparr>) = Inr s1"
        using s1(1) hs pr
        by (simp add: captureRows_def Let_def syncIdxToScroll_def split: sum.splits)
      show ?thesis
        using \<open>scrollToIdx d s1 (idx s1) = Inr s2\<close> by (simp add: onResize_def c s2_def)
    qed
    show ?thesis
      using s1 r rg sy indep False
      by (intro exI[of _ s1] exI[of _ s2]) (simp add: s2_def)
  qed
qed

theorem resize_reindex_witness:
  "\<exists>s1 s2. captureRows reflowed3 stale5 = Inr s1 \<and> onResize reflowed3 stale5 = Inr s2 \<and>
     rows s1 \<noteq> [] \<and> 0 \<le> idx s2 \<and> idx s2 \<le> int (length (rows s1)) - 1 \<and>
     syncIdxToScroll reflowed3 (stale5\<lparr>rows := rows s1\<rparr>) = Inr s1"
proof -
  from resize_reindex[of reflowed3 stale5] obtain s1 s2 where
    a: "captureRows reflowed3 stale5 = Inr s1" "onResize reflowed3 stale5 = Inr s2" and
    b: "rows s1 \<noteq> [] \<longrightarrow>
        0 \<le> idx s2 \<and> idx s2 \<le> int (length (rows s1)) - 1 \<and>
        syncIdxToScroll reflowed3 (stale5\<lparr>rows := rows s1\<rparr>) = Inr s1 \<and>
        (\<forall>k. \<exists>s3. onResize reflowed3 (stale5\<lparr>idx := k\<rparr>) = Inr s3 \<and> idx s3 = idx s2)"
    by blast
  have "captureRows reflowed3 stale5 = Inr \<lparr>rows = [0, 4, 8], idx = 1, scrollTarget = None\<rparr>"
    by code_simp
  with a(1) have "s1 = \<lparr>rows = [0, 4, 8], idx = 1, scrollTarget = None\<rparr>" by simp
  then have "rows s1 \<noteq> []" by simp
  with a b show ?thesis by blast
qed

text \<open>
  The claim as it was stated fails: five anchors with the index on the last one, and a
  reflow into the three systems of the example with the card at scroll offset 150. The
  row count drops to \<open>3 < 4 + 1\<close>, and the index ends at 1, the row that the scroll
  offset implies, not at \<open>r' - 1 = 2\<close>.
\<close>

theorem resize_counterexample:
  "length (rows stale5) = 5 \<and> idx stale5 = 4 \<and>
   onResize reflowed3 stale5 = Inr resized3 \<and>
   length (rows resized3) = 3 \<and> idx resized3 = 1 \<and>
   idx resized3 \<noteq> int (length (rows resized3)) - 1"
proof -
  have "onResize reflowed3 stale5 = Inr resized3" by code_simp
  then show ?thesis by (simp add: stale5_def resized3_def)
qed

subsection \<open>Jitter tolerance\<close>

lemma bucketize_grows: "set (bucketize d gs) \<subseteq> set (bucketize d (gs @ [g]))"
  by (auto simp: bucketize_snoc add_staffline_cases)

lemma bucketize_covers:
  "g \<in> set gs \<Longrightarrow> \<exists>b \<in> set (bucketize d gs). \<bar>b_y b - Math_round (rectTop d g)\<bar> < 2"
proof (induction gs rule: rev_induct)
  case Nil
  then show ?case by simp
next
  case (snoc h gs)
  show ?case
  proof (cases "g = h")
    case True
    then show ?thesis by (auto simp: bucketize_snoc add_staffline_cases)
  next
    case False
    with snoc obtain b where "b \<in> set (bucketize d gs)" "\<bar>b_y b - Math_round (rectTop d g)\<bar> < 2"
      by auto
    with bucketize_grows[of d gs h] show ?thesis by blast
  qed
qed

lemma bucketize_apart:
  "sorted_wrt (\<lambda>a b. 2 \<le> \<bar>b_y a - b_y b\<bar>) (bucketize d gs)"
proof (induction gs rule: rev_induct)
  case Nil
  then show ?case by (simp add: bucketize_def)
next
  case (snoc g gs)
  then show ?case
    by (auto simp: bucketize_snoc add_staffline_cases sorted_wrt_append not_less)
qed

text \<open>
  C4 (as amended). Bucketing is a single pass in discovery order over the tops rounded to
  the nearest integer pixel. Each rounded top is compared with the coordinates of the
  buckets created before it: it joins an existing bucket (no bucket is added) exactly
  when some bucket coordinate is less than 2 px away, otherwise it starts a new bucket
  at the end. Hence every line is less than 2 px away from the coordinate of some
  bucket, any two bucket coordinates are at least 2 px apart, and of two staff lines
  alone the second collapses into the bucket of the first exactly when their rounded
  tops differ by less than 2 px. Pairs of lines in general are not covered: the outcome
  depends on the rounding and on the discovery order.
\<close>

theorem jitter_buckets:
  "bucketize d (gs @ [g]) =
     (if \<exists>b \<in> set (bucketize d gs). \<bar>b_y b - Math_round (rectTop d g)\<bar> < 2 then bucketize d gs
      else bucketize d gs @ [\<lparr>b_y = Math_round (rectTop d g), b_el = g\<rparr>]) \<and>
   (\<forall>h \<in> set gs. \<exists>b \<in> set (bucketize d gs). \<bar>b_y b - Math_round (rectTop d h)\<bar> < 2) \<and>
   (\<forall>i j. i < j \<and> j < length (bucketize d gs) \<longrightarrow>
      2 \<le> \<bar>b_y (bucketize d gs ! i) - b_y (bucketize d gs ! j)\<bar>) \<and>
   bucketize d [g1, g2] =
     (if \<bar>Math_round (rectTop d g1) - Math_round (rectTop d g2)\<bar> < 2
      then [\<lparr>b_y = Math_round (rectTop d g1), b_el = g1\<rparr>]
      else [\<lparr>b_y = Math_round (rectTop d g1), b_el = g1\<rparr>,
            \<lparr>b_y = Math_round (rectTop d g2), b_el = g2\<rparr>])"
proof (intro conjI)
  show "bucketize d (gs @ [g]) =
     (if \<exists>b \<in> set (bucketize d gs). \<bar>b_y b - Math_round (rectTop d g)\<bar> < 2 then bucketize d gs
      else bucketize d gs @ [\<lparr>b_y = Math_round (rectTop d g), b_el = g\<rparr>])"
    by (simp only: bucketize_snoc add_staffline_cases)
  show "\<forall>h \<in> set gs. \<exists>b \<in> set (bucketize d gs). \<bar>b_y b - Math_round (rectTop d h)\<bar> < 2"
    by (rule ballI) (rule bucketize_covers)
  show "\<forall>i j. i < j \<and> j < length (bucketize d gs) \<longrightarrow>
      2 \<le> \<bar>b_y (bucketize d gs ! i) - b_y (bucketize d gs ! j)\<bar>"
    using bucketize_apart[of d gs] by (simp add: sorted_wrt_iff_nth_less)
  have "bucketize d [g1, g2] = add_staffline d (add_staffline d [] g1) g2"
    by (simp add: bucketize_def)
  then show "bucketize d [g1, g2] =
     (if \<bar>Math_round (rectTop d g1) - Math_round (rectTop d g2)\<bar> < 2
      then [\<lparr>b_y = Math_round (rectTop d g1), b_el = g1\<rparr>]
      else [\<lparr>b_y = Math_round (rectTop d g1), b_el = g1\<rparr>,
            \<lparr>b_y = Math_round (rectTop d g2), b_el = g2\<rparr>])"
    by (simp add: add_staffline_cases)
qed

lemma jitter3_buckets:
  "bucketize jitter3 [0, 1, 2] = [\<lparr>b_y = 10, b_el = 0\<rparr>, \<lparr>b_y = 13, b_el = 2\<rparr>]"
  by code_simp

theorem jitter_buckets_witness:
  "bucketize jitter3 [0, 1] = [\<lparr>b_y = 10, b_el = 0\<rparr>] \<and>
   bucketize jitter3 ([0, 1] @ [2]) = [\<lparr>b_y = 10, b_el = 0\<rparr>, \<lparr>b_y = 13, b_el = 2\<rparr>] \<and>
   (1::nat) \<in> set [0, 1, 2] \<and>
   (\<exists>b \<in> set (bucketize jitter3 [0, 1, 2]). \<bar>b_y b - Math_round (rectTop jitter3 1)\<bar> < 2) \<and>
   (0::nat) < 1 \<and> 1 < length (bucketize jitter3 [0, 1, 2]) \<and>
   2 \<le> \<bar>b_y (bucketize jitter3 [0, 1, 2] ! 0) - b_y (bucketize jitter3 [0, 1, 2] ! 1)\<bar>"
proof -
  note K = jitter_buckets[of jitter3 "[0, 1, 2]" 2 0 1]
  have two: "bucketize jitter3 [0, 1] = [\<lparr>b_y = 10, b_el = 0\<rparr>]"
    by code_simp
  have three: "bucketize jitter3 ([0, 1] @ [2]) = [\<lparr>b_y = 10, b_el = 0\<rparr>, \<lparr>b_y = 13, b_el = 2\<rparr>]"
    by code_simp
  have m: "(1::nat) \<in> set [0, 1, 2]" by simp
  from K[THEN conjunct2, THEN conjunct1] m
  have cov: "\<exists>b \<in> set (bucketize jitter3 [0, 1, 2]). \<bar>b_y b - Math_round (rectTop jitter3 1)\<bar> < 2"
    by blast
  have l: "(0::nat) < 1 \<and> 1 < length (bucketize jitter3 [0, 1, 2])"
    using jitter3_buckets by simp
  from K[THEN conjunct2, THEN conjunct2, THEN conjunct1] l
  have ap: "2 \<le> \<bar>b_y (bucketize jitter3 [0, 1, 2] ! 0) - b_y (bucketize jitter3 [0, 1, 2] ! 1)\<bar>"
    by blast
  from two three m cov l ap show ?thesis by blast
qed

text \<open>
  The claim as it was stated, for every pair of staff-line positions, fails both ways.
  Tops 10.4 and 11.6 are 1.2 px apart but round to 10 and 12 and stay in two buckets.
  And with the discovery order 11, 10, 12 the lines at 10 and 12, which are 2 px apart,
  both join the bucket of the line at 11, so that a single bucket holds them.
\<close>

theorem jitter_buckets_counterexample:
  "rectTop near2 1 - rectTop near2 0 = 6 / 5 \<and>
   bucketize near2 (stafflines near2) = [\<lparr>b_y = 10, b_el = 0\<rparr>, \<lparr>b_y = 12, b_el = 1\<rparr>] \<and>
   Math_round (rectTop order3 0) = 11 \<and> Math_round (rectTop order3 1) = 10 \<and>
   Math_round (rectTop order3 2) = 12 \<and>
   bucketize order3 (stafflines order3) = [\<lparr>b_y = 11, b_el = 0\<rparr>]"
proof -
  have "rectTop near2 1 - rectTop near2 0 = 6 / 5" by (simp add: rectTop_def near2_def)
  moreover have "bucketize near2 (stafflines near2) =
      [\<lparr>b_y = 10, b_el = 0\<rparr>, \<lparr>b_y = 12, b_el = 1\<rparr>]" by code_simp
  moreover have "Math_round (rectTop order3 0) = 11" "Math_round (rectTop order3 1) = 10"
    "Math_round (rectTop order3 2) = 12" by code_simp+
  moreover have "bucketize order3 (stafflines order3) = [\<lparr>b_y = 11, b_el = 0\<rparr>]"
    by code_simp
  ultimately show ?thesis by blast
qed

subsection \<open>The gap threshold\<close>

lemma deltas_adjacent: "deltas bs = adjacent_gaps (map b_y bs)"
proof (rule nth_equalityI)
  show "length (deltas bs) = length (adjacent_gaps (map b_y bs))"
    by (simp add: deltas_def adjacent_gaps_def)
next
  fix i assume "i < length (deltas bs)"
  then have i: "i < length bs - 1" by (simp add: deltas_def)
  then have "deltas bs ! i = b_y (bs ! (i + 1)) - b_y (bs ! i)"
    by (simp add: deltas_def)
  moreover from i have "adjacent_gaps (map b_y bs) ! i = b_y (bs ! (i + 1)) - b_y (bs ! i)"
    by (simp add: adjacent_gaps_def nth_tl)
  ultimately show "deltas bs ! i = adjacent_gaps (map b_y bs) ! i" by simp
qed

lemma median_lower: "median ds = (if ds = [] then 0 else lower_median ds)"
proof (cases "ds = []")
  case True
  then show ?thesis by (simp add: median_def)
next
  case False
  then have "0 < length ds" by simp
  then have "(length ds - 1) div 2 = (if even (length ds) then length ds div 2 - 1 else length ds div 2)"
    by (cases "even (length ds)") (auto elim!: evenE oddE)
  with False show ?thesis by (simp add: median_def lower_median_def Let_def)
qed

lemma Math_round_22: "Math_round (of_int m * (22 / 10)) = (22 * m + 5) div 10"
proof -
  have "of_int m * (22 / 10) + 1 / 2 = (of_int (22 * m + 5) :: rat) / of_int 10"
    by simp
  then show ?thesis
    unfolding Math_round_def by (simp only: floor_divide_of_int_eq)
qed

lemma Math_round_22_nearest:
  "\<bar>of_int (Math_round (of_int m * (22 / 10))) - (of_int m * (22 / 10) :: rat)\<bar> < 1 / 2"
proof -
  define q where "q = (22 * m + 5) div 10"
  define r where "r = (22 * m + 5) mod 10"
  have odd: "r \<noteq> 0"
  proof
    assume "r = 0"
    then have "10 dvd 22 * m + 5" by (simp add: r_def dvd_eq_mod_eq_0)
    then have "2 dvd 22 * m + 5"
      by (meson dvd_trans even_numeral dvd_refl Parity.even_mult_iff[of 2 5] dvd_triv_left[of 2 5])
    then show False by simp
  qed
  have r: "0 \<le> r" "r < 10" by (simp_all add: r_def)
  have "22 * m + 5 = 10 * q + r"
    by (simp add: r_def q_def)
  then have "(of_int (22 * m + 5) :: rat) = of_int (10 * q + r)"
    by (simp only:)
  then have e: "(22 * of_int m + 5 :: rat) = 10 * of_int q + of_int r"
    by simp
  have "1 \<le> r" "r \<le> 9" using odd r by simp_all
  then have b: "(1::rat) \<le> of_int r" "(of_int r :: rat) \<le> 9"
    by (simp_all add: int_one_le_iff_zero_less)
  have "\<bar>(of_int q :: rat) - of_int m * (22 / 10)\<bar> < 1 / 2"
    using e b by linarith
  then show ?thesis
    by (simp only: Math_round_22 q_def)
qed

lemma GAP_no_gaps: "length bs \<le> 1 \<Longrightarrow> GAP bs = 40"
  by (simp add: GAP_def deltas_def median_def Math_round_def)

lemma Math_round_22_ge: "0 \<le> w \<Longrightarrow> w \<le> Math_round (of_int w * (22 / 10))"
proof -
  assume "0 \<le> w"
  then have "10 * w \<le> 22 * w + 5" by simp
  then have "(10 * w) div 10 \<le> (22 * w + 5) div 10" by (rule zdiv_mono1) simp
  then show ?thesis unfolding Math_round_22 by simp
qed

lemma GAP_spec: "GAP bs = spec_GAP (map b_y bs)"
  by (simp add: GAP_def spec_GAP_def Let_def deltas_adjacent median_lower Math_round_def round_def)

lemma picked_single:
  assumes ne: "bs \<noteq> []"
    and small: "\<And>i. 0 < i \<Longrightarrow> i < length bs \<Longrightarrow> b_y (bs ! i) - b_y (bs ! (i - 1)) \<le> GAP bs"
  shows "picked bs = [0]"
proof -
  from ne have u: "[0..<length bs] = 0 # [Suc 0..<length bs]"
    by (simp add: upt_conv_Cons)
  have "filter (\<lambda>i. i = 0 \<or> b_y (bs ! i) - b_y (bs ! (i - 1)) > GAP bs) [Suc 0..<length bs] = []"
    unfolding filter_empty_conv using small by (auto simp: not_less)
  then show ?thesis by (simp add: picked_def u)
qed

lemma deltas_uniform:
  assumes "\<And>i. 0 < i \<Longrightarrow> i < length bs \<Longrightarrow> b_y (bs ! i) - b_y (bs ! (i - 1)) = w"
  shows "deltas bs = replicate (length bs - 1) w"
proof -
  have "map (\<lambda>i. b_y (bs ! i) - b_y (bs ! (i - 1))) [1..<length bs] = map (\<lambda>i. w) [1..<length bs]"
  proof (rule map_cong[OF refl])
    fix i assume "i \<in> set [1..<length bs]"
    then have "0 < i" "i < length bs" by simp_all
    then show "b_y (bs ! i) - b_y (bs ! (i - 1)) = w" by (rule assms)
  qed
  then show ?thesis by (simp add: deltas_def map_replicate_const)
qed

lemma median_replicate: "0 < k \<Longrightarrow> median (replicate k w) = w"
proof -
  assume k: "0 < k"
  have "sort (replicate k w) = replicate k w"
    by (rule sorted_sort_id) (simp add: sorted_replicate)
  moreover from k have "(k - 1) div 2 < k" by simp
  ultimately show ?thesis using k by (simp add: median_def)
qed

lemma GAP_uniform:
  assumes "2 \<le> length bs"
    and "\<And>i. 0 < i \<Longrightarrow> i < length bs \<Longrightarrow> b_y (bs ! i) - b_y (bs ! (i - 1)) = w"
  shows "GAP bs = max 40 ((22 * w + 5) div 10)"
proof -
  from assms(1) have "0 < length bs - 1" by simp
  then have "median (deltas bs) = w"
    by (simp only: deltas_uniform[OF assms(2)] median_replicate)
  then show ?thesis by (simp only: GAP_def Math_round_22)
qed

lemma captureRows_single:
  assumes "hasSvg d" "picked (sorted_buckets d) = [0]"
  shows "\<exists>s'. captureRows d s = Inr s' \<and> length (rows s') = 1"
  using captureRows_ok[of d s] assms by (auto simp: pick_rows_picked)

text \<open>
  C3 (as amended). The threshold that \<open>captureRows\<close> derives is
  \<open>max(40, round(median * 2.2))\<close>, where the median is the lower median of the sorted
  gaps between adjacent bucket coordinates and 0 when there are no gaps. With no gap
  data (at most one bucket) it is exactly 40, and a single bucket gives exactly one
  anchor. One system of several staff lines with spacing \<open>w\<close> has gap data: its threshold
  is \<open>max(40, round(2.2 * w))\<close>, which is 40 exactly when \<open>w \<le> 18\<close>, and extraction
  still yields exactly one anchor. The rounding never meets a tie: \<open>2.2 * m\<close> is less
  than one half away from the integer taken, for every integer \<open>m\<close>.
\<close>

theorem gap_threshold:
  "GAP bs = spec_GAP (map b_y bs) \<and>
   (length bs \<le> 1 \<longrightarrow> GAP bs = 40) \<and>
   (hasSvg d \<and> length (sorted_buckets d) = 1 \<longrightarrow>
      GAP (sorted_buckets d) = 40 \<and> (\<exists>s'. captureRows d s = Inr s' \<and> length (rows s') = 1)) \<and>
   (hasSvg d \<and> 2 \<le> length (sorted_buckets d) \<and>
    (\<forall>i. 0 < i \<and> i < length (sorted_buckets d) \<longrightarrow>
         b_y (sorted_buckets d ! i) - b_y (sorted_buckets d ! (i - 1)) = w) \<longrightarrow>
      GAP (sorted_buckets d) = max 40 ((22 * w + 5) div 10) \<and>
      (GAP (sorted_buckets d) = 40 \<longleftrightarrow> w \<le> 18) \<and>
      (\<exists>s'. captureRows d s = Inr s' \<and> length (rows s') = 1)) \<and>
   \<bar>of_int (Math_round (of_int m * (22 / 10))) - (of_int m * (22 / 10) :: rat)\<bar> < 1 / 2"
proof (intro conjI impI)
  show "\<bar>of_int (Math_round (of_int m * (22 / 10))) - (of_int m * (22 / 10) :: rat)\<bar> < 1 / 2"
    by (rule Math_round_22_nearest)
  show "GAP bs = spec_GAP (map b_y bs)" by (rule GAP_spec)
  show "GAP bs = 40" if "length bs \<le> 1" using that by (rule GAP_no_gaps)
next
  assume h: "hasSvg d \<and> length (sorted_buckets d) = 1"
  then show "GAP (sorted_buckets d) = 40" by (simp add: GAP_no_gaps)
  from h have "sorted_buckets d \<noteq> []" by auto
  with h have "picked (sorted_buckets d) = [0]"
    by (intro picked_single) auto
  with h show "\<exists>s'. captureRows d s = Inr s' \<and> length (rows s') = 1"
    using captureRows_single[of d s] by blast
next
  assume h: "hasSvg d \<and> 2 \<le> length (sorted_buckets d) \<and>
    (\<forall>i. 0 < i \<and> i < length (sorted_buckets d) \<longrightarrow>
         b_y (sorted_buckets d ! i) - b_y (sorted_buckets d ! (i - 1)) = w)"
  then have g: "GAP (sorted_buckets d) = max 40 ((22 * w + 5) div 10)"
    by (intro GAP_uniform) auto
  then show "GAP (sorted_buckets d) = max 40 ((22 * w + 5) div 10)" .
  have "(22 * w + 5) div 10 \<le> 40 \<longleftrightarrow> w \<le> 18"
  proof
    assume le: "(22 * w + 5) div 10 \<le> 40"
    show "w \<le> 18"
    proof (rule ccontr)
      assume "\<not> w \<le> 18"
      then have "410 \<le> 22 * w + 5" by simp
      then have "410 div 10 \<le> (22 * w + 5) div 10" by (rule zdiv_mono1) simp
      with le show False by simp
    qed
  next
    assume "w \<le> 18"
    then have "22 * w + 5 \<le> 401" by simp
    then have "(22 * w + 5) div 10 \<le> 401 div 10" by (rule zdiv_mono1) simp
    then show "(22 * w + 5) div 10 \<le> 40" by simp
  qed
  then show "GAP (sorted_buckets d) = 40 \<longleftrightarrow> w \<le> 18"
    unfolding g by auto
  from h have "2 \<le> length (sorted_buckets d)" by (rule conjunct2[THEN conjunct1])
  then have l: "0 < length (sorted_buckets d)" "1 < length (sorted_buckets d)"
    by linarith+
  then have ne: "sorted_buckets d \<noteq> []" by auto
  have w0: "0 \<le> w"
  proof -
    from h l have "b_y (sorted_buckets d ! 1) - b_y (sorted_buckets d ! 0) = w" by auto
    moreover have "b_y (sorted_buckets d ! 0) \<le> b_y (sorted_buckets d ! 1)"
      using sorted_nth_mono[OF sorted_buckets_sorted[of d], of 0 1] l by (simp del: One_nat_def)
    ultimately show ?thesis by simp
  qed
  have "w \<le> (22 * w + 5) div 10"
    using Math_round_22_ge[OF w0] by (simp only: Math_round_22)
  then have "w \<le> GAP (sorted_buckets d)" unfolding g by simp
  with h have "picked (sorted_buckets d) = [0]"
    by (intro picked_single[OF ne]) auto
  with h show "\<exists>s'. captureRows d s = Inr s' \<and> length (rows s') = 1"
    using captureRows_single[of d s] by blast
qed

lemma single_buckets: "sorted_buckets single = [\<lparr>b_y = 12, b_el = 0\<rparr>]"
  by code_simp

lemma pair20_buckets: "sorted_buckets pair20 = [\<lparr>b_y = 0, b_el = 0\<rparr>, \<lparr>b_y = 20, b_el = 1\<rparr>]"
  by code_simp

theorem gap_threshold_witness:
  "hasSvg single \<and> length (sorted_buckets single) = 1 \<and> GAP (sorted_buckets single) = 40 \<and>
   (\<exists>s'. captureRows single initial = Inr s' \<and> length (rows s') = 1) \<and>
   hasSvg pair20 \<and> 2 \<le> length (sorted_buckets pair20) \<and>
   GAP (sorted_buckets pair20) = 44 \<and>
   (\<exists>s'. captureRows pair20 initial = Inr s' \<and> length (rows s') = 1)"
proof -
  have a: "hasSvg single \<and> length (sorted_buckets single) = 1"
    by (simp add: single_buckets) (simp add: single_def)
  have b: "hasSvg pair20 \<and> 2 \<le> length (sorted_buckets pair20) \<and>
    (\<forall>i. 0 < i \<and> i < length (sorted_buckets pair20) \<longrightarrow>
         b_y (sorted_buckets pair20 ! i) - b_y (sorted_buckets pair20 ! (i - 1)) = 20)"
  proof (intro conjI allI impI)
    show "hasSvg pair20" by (simp add: pair20_def)
    show "2 \<le> length (sorted_buckets pair20)" by (simp add: pair20_buckets)
    fix i assume "0 < i \<and> i < length (sorted_buckets pair20)"
    then have "i = 1" by (simp add: pair20_buckets)
    then show "b_y (sorted_buckets pair20 ! i) - b_y (sorted_buckets pair20 ! (i - 1)) = 20"
      by (simp add: pair20_buckets)
  qed
  note T1 = gap_threshold[of "[]" single initial 0, THEN conjunct2, THEN conjunct2, THEN conjunct1, rule_format, OF a]
  note T2 = gap_threshold[of "[]" pair20 initial 20, THEN conjunct2, THEN conjunct2, THEN conjunct2, THEN conjunct1, rule_format, OF b]
  from T2 have "GAP (sorted_buckets pair20) = 44" by simp
  with a b T1 T2 show ?thesis by blast
qed

text \<open>
  The claim as it was stated fails for one system of two staves 20 px apart: extraction
  yields one anchor, so the page is a single system also for the code, yet the one gap
  makes the median 20 and the threshold 44.
\<close>

theorem gap_threshold_counterexample:
  "captureRows pair20 initial = Inr \<lparr>rows = [0], idx = 0, scrollTarget = None\<rparr> \<and>
   deltas (sorted_buckets pair20) = [20] \<and>
   GAP (sorted_buckets pair20) = 44 \<and> GAP (sorted_buckets pair20) \<noteq> 40"
proof -
  have "captureRows pair20 initial = Inr \<lparr>rows = [0], idx = 0, scrollTarget = None\<rparr>"
    by code_simp
  moreover have "deltas (sorted_buckets pair20) = [20]"
    by (simp add: pair20_buckets deltas_def)
  moreover have "GAP (sorted_buckets pair20) = 44"
    by code_simp
  ultimately show ?thesis by simp
qed

subsection \<open>Facts about lists used for the extraction of systems\<close>

lemma filter_multiples:
  "0 < n \<Longrightarrow> filter (\<lambda>i. i mod n = 0) [0..<k * n] = map (\<lambda>j. j * n) [0..<k]"
proof (induction k)
  case 0
  then show ?case by simp
next
  case (Suc k)
  have "Suc k * n = k * n + n" by simp
  moreover have "[0..<k * n + n] = [0..<k * n] @ [k * n..<k * n + n]"
    by (rule upt_add_eq_append) simp
  moreover have "[k * n..<k * n + n] = k * n # [Suc (k * n)..<k * n + n]"
    using Suc.prems by (intro upt_conv_Cons) simp
  ultimately have split: "[0..<Suc k * n] = [0..<k * n] @ (k * n # [Suc (k * n)..<k * n + n])"
    by (simp only:)
  have "filter (\<lambda>i. i mod n = 0) [Suc (k * n)..<k * n + n] = []"
  proof -
    have "i mod n \<noteq> 0" if "Suc (k * n) \<le> i" "i < k * n + n" for i
    proof -
      define t where "t = i - k * n"
      with that have t: "i = k * n + t" "0 < t" "t < n" by simp_all
      have "(k * n + t) mod n = t" using t(3) by simp
      with t show ?thesis by simp
    qed
    then show ?thesis by (auto simp: filter_empty_conv)
  qed
  then show ?case using Suc by (simp only: split) simp
qed

lemma count_non_multiples:
  assumes "0 < n" "0 < k"
  shows "length (filter (\<lambda>i. i mod n \<noteq> 0) [1..<k * n]) = k * n - k"
proof -
  have z: "[0..<k * n] = 0 # [1..<k * n]"
    using assms by (simp add: upt_conv_Cons)
  have "length (filter (\<lambda>i. i mod n = 0) [0..<k * n]) = k"
    by (simp add: filter_multiples[OF assms(1)])
  then have m: "length (filter (\<lambda>i. i mod n = 0) [1..<k * n]) = k - 1"
    unfolding z by simp
  have "length (filter (\<lambda>i. i mod n = 0) [1..<k * n]) + length (filter (\<lambda>i. \<not> i mod n = 0) [1..<k * n])
        = length [1..<k * n]"
    by (rule sum_length_filter_compl)
  with m have "length (filter (\<lambda>i. i mod n \<noteq> 0) [1..<k * n]) = (k * n - 1) - (k - 1)"
    by simp
  moreover have "k \<le> k * n" using assms by simp
  ultimately show ?thesis using assms by simp
qed

lemma sort_nth_least:
  fixes xs :: "int list"
  assumes lb: "\<forall>x \<in> set xs. w \<le> x" and i: "i < length (filter (\<lambda>x. x = w) xs)"
  shows "sort xs ! i = w"
proof (rule ccontr)
  assume ne: "sort xs ! i \<noteq> w"
  let ?zs = "sort xs"
  have cnt: "length (filter (\<lambda>x. x = w) ?zs) = length (filter (\<lambda>x. x = w) xs)"
  proof -
    have "mset (filter (\<lambda>x. x = w) ?zs) = mset (filter (\<lambda>x. x = w) xs)"
      by (simp only: mset_filter mset_sort)
    then show ?thesis by (rule mset_eq_length)
  qed
  have "length (filter (\<lambda>x. x = w) xs) \<le> length xs" by (rule length_filter_le)
  with i have "i < length xs" by (rule less_le_trans)
  then have il: "i < length ?zs" by simp
  then have "?zs ! i \<in> set xs" using nth_mem[of i ?zs] by simp
  with lb ne have gt: "w < ?zs ! i" by force
  have "filter (\<lambda>x. x = w) (drop i ?zs) = []"
  proof -
    have "w < x" if "x \<in> set (drop i ?zs)" for x
    proof -
      from that obtain j where j: "j < length (drop i ?zs)" "x = drop i ?zs ! j"
        by (auto simp: in_set_conv_nth)
      then have "x = ?zs ! (i + j)" "i + j < length ?zs" by simp_all
      then have "?zs ! i \<le> x" using sorted_nth_mono[of ?zs i "i + j"] by simp
      with gt show ?thesis by simp
    qed
    then show ?thesis by (auto simp: filter_empty_conv)
  qed
  then have "filter (\<lambda>x. x = w) ?zs = filter (\<lambda>x. x = w) (take i ?zs)"
    using filter_append[of "\<lambda>x. x = w" "take i ?zs" "drop i ?zs"] by simp
  then have "length (filter (\<lambda>x. x = w) ?zs) \<le> length (take i ?zs)"
    by (simp only: length_filter_le)
  then have "length (filter (\<lambda>x. x = w) ?zs) \<le> i" by simp
  with cnt i show False by simp
qed

lemma steps_to_pairs:
  fixes f :: "nat \<Rightarrow> int"
  assumes step: "\<And>i. Suc i < N \<Longrightarrow> f i + c \<le> f (Suc i)" and c: "0 \<le> c"
  shows "i < j \<Longrightarrow> j < N \<Longrightarrow> f i + c \<le> f j"
proof (induction j)
  case 0
  then show ?case by simp
next
  case (Suc j)
  show ?case
  proof (cases "i = j")
    case True
    with Suc.prems step show ?thesis by simp
  next
    case False
    with Suc.prems have "i < j" "j < N" by simp_all
    then have "f i + c \<le> f j" by (rule Suc.IH)
    moreover have "f j + c \<le> f (Suc j)" using Suc.prems by (intro step)
    ultimately show ?thesis using c by simp
  qed
qed

lemma sorted_wrt_sym_perm:
  assumes sw: "sorted_wrt R xs" and sym: "\<And>a b. R a b \<Longrightarrow> R b a"
    and irr: "\<And>a. \<not> R a a" and perm: "mset ys = mset xs"
  shows "sorted_wrt R ys"
proof -
  have d: "distinct xs" using sw irr
    by (induction xs) auto
  have pw: "R a b" if "a \<in> set xs" "b \<in> set xs" "a \<noteq> b" for a b
  proof -
    from that obtain i j where ij: "i < length xs" "j < length xs" "a = xs ! i" "b = xs ! j"
      by (auto simp: in_set_conv_nth)
    with that have "i \<noteq> j" by auto
    then consider "i < j" | "j < i" by linarith
    then show ?thesis
    proof cases
      case 1
      then show ?thesis using sw ij by (simp add: sorted_wrt_iff_nth_less)
    next
      case 2
      then have "R b a" using sw ij by (simp add: sorted_wrt_iff_nth_less)
      then show ?thesis by (rule sym)
    qed
  qed
  have dy: "distinct ys" using mset_eq_imp_distinct_iff[OF perm] d by simp
  have sy: "set ys = set xs" using perm by (rule mset_eq_setD)
  have "distinct zs \<Longrightarrow> set zs \<subseteq> set xs \<Longrightarrow> sorted_wrt R zs" for zs
    by (induction zs) (auto intro: pw)
  with dy sy show ?thesis by simp
qed

lemma filter_key_distinct:
  "distinct (map f ys) \<Longrightarrow> k \<in> set ys \<Longrightarrow> filter (\<lambda>x. f k = f x) ys = [k]"
proof (induction ys)
  case Nil
  then show ?case by simp
next
  case (Cons y ys)
  show ?case
  proof (cases "k = y")
    case True
    with Cons.prems have "\<forall>x \<in> set ys. f k \<noteq> f x" by auto
    then have "filter (\<lambda>x. f k = f x) ys = []" by (simp add: filter_empty_conv)
    with True show ?thesis by simp
  next
    case False
    with Cons.prems have "k \<in> set ys" "f k \<noteq> f y" by (force simp: image_iff)+
    with Cons show ?thesis by simp
  qed
qed

lemma sort_key_perm:
  assumes perm: "mset xs = mset ys" and so: "sorted (map f ys)" and di: "distinct (map f ys)"
  shows "sort_key f xs = ys"
proof (rule properties_for_sort_key)
  show "mset ys = mset xs" using perm by simp
  show "sorted (map f ys)" by (rule so)
  fix k assume k: "k \<in> set ys"
  have "mset (map f xs) = mset (map f ys)" using perm by simp
  from mset_eq_imp_distinct_iff[OF this] di have dx: "distinct (map f xs)" by simp
  from perm have "set xs = set ys" by (rule mset_eq_setD)
  with k have kx: "k \<in> set xs" by simp
  show "filter (\<lambda>x. f k = f x) ys = filter (\<lambda>x. f k = f x) xs"
    by (simp only: filter_key_distinct[OF di k] filter_key_distinct[OF dx kx])
qed

subsection \<open>Extraction of systems\<close>

lemma lineY_step:
  assumes n: "0 < n" 
  shows "lineY start n w (Suc i) - lineY start n w i =
     (if Suc i mod n = 0 then start (Suc (i div n)) - (start (i div n) + (int n - 1) * w) else w)"
proof (cases "Suc i mod n = 0")
  case True
  then have "Suc (i mod n) = n" using n by (simp add: mod_Suc split: if_splits)
  then have m: "int (i mod n) = int n - 1" by linarith
  from True have "Suc i div n = Suc (i div n)" by (simp add: div_Suc)
  with True m show ?thesis by (simp add: lineY_def)
next
  case False
  then have "Suc i mod n = Suc (i mod n)" by (simp add: mod_Suc split: if_splits)
  moreover from False have "Suc i div n = i div n" by (simp add: div_Suc)
  ultimately show ?thesis using False by (simp add: lineY_def algebra_simps)
qed

lemma bucketize_all:
  "sorted_wrt (\<lambda>a b. 2 \<le> \<bar>Math_round (rectTop d a) - Math_round (rectTop d b)\<bar>) gs \<Longrightarrow>
   bucketize d gs = map (\<lambda>g. \<lparr>b_y = Math_round (rectTop d g), b_el = g\<rparr>) gs"
proof (induction gs rule: rev_induct)
  case Nil
  then show ?case by (simp add: bucketize_def)
next
  case (snoc g gs)
  then have ih: "bucketize d gs = map (\<lambda>g. \<lparr>b_y = Math_round (rectTop d g), b_el = g\<rparr>) gs"
    and far: "\<forall>a \<in> set gs. 2 \<le> \<bar>Math_round (rectTop d a) - Math_round (rectTop d g)\<bar>"
    by (simp_all add: sorted_wrt_append)
  from far have "\<not> (\<exists>b \<in> set (bucketize d gs). \<bar>b_y b - Math_round (rectTop d g)\<bar> < 2)"
    unfolding ih by (auto simp: not_less)
  then show ?case
    by (simp add: bucketize_snoc add_staffline_cases ih)
qed

lemma synthetic_buckets:
  fixes d :: "'e dom" and es :: "'e list"
  assumes perm: "mset (stafflines d) = mset es"
    and apart: "\<And>i j. i < j \<Longrightarrow> j < length es \<Longrightarrow>
                  Math_round (rectTop d (es ! i)) + 2 \<le> Math_round (rectTop d (es ! j))"
  shows "sorted_buckets d = map (\<lambda>g. \<lparr>b_y = Math_round (rectTop d g), b_el = g\<rparr>) es"
proof -
  let ?Y = "\<lambda>g. Math_round (rectTop d g)"
  let ?mk = "\<lambda>g. \<lparr>b_y = ?Y g, b_el = g\<rparr>"
  let ?R = "\<lambda>a b. 2 \<le> \<bar>?Y a - ?Y b\<bar>"
  have "sorted_wrt ?R es"
    unfolding sorted_wrt_iff_nth_less using apart by fastforce
  then have "sorted_wrt ?R (stafflines d)"
  proof (rule sorted_wrt_sym_perm)
    show "?R b a" if "?R a b" for a b using that by (simp add: abs_minus_commute)
    show "\<not> ?R a a" for a by simp
    show "mset (stafflines d) = mset es" by (rule perm)
  qed
  then have bk: "bucketize d (stafflines d) = map ?mk (stafflines d)"
    by (rule bucketize_all)
  have st: "sorted_wrt (<) (map ?Y es)"
    unfolding sorted_wrt_iff_nth_less using apart by fastforce
  have "sort_key b_y (map ?mk (stafflines d)) = map ?mk es"
  proof (rule sort_key_perm)
    show "mset (map ?mk (stafflines d)) = mset (map ?mk es)" using perm by simp
    have "map b_y (map ?mk es) = map ?Y es" by simp
    with st show "sorted (map b_y (map ?mk es))" "distinct (map b_y (map ?mk es))"
      by (simp_all only: strict_sorted_iff)
  qed
  then show ?thesis by (simp only: sorted_buckets_def bk)
qed

text \<open>
  C1 (as amended). Let the staff lines of the page, read top to bottom, form \<open>k \<ge> 1\<close>
  systems of \<open>n \<ge> 2\<close> lines each, with rounded tops \<open>w \<ge> 2\<close> px apart inside a system,
  and let every between-system spacing (from the last line of a system to the first line
  of the next) exceed the threshold \<open>max(40, round(2.2 * w))\<close>. Then, in whatever order
  the staff lines are discovered, \<open>captureRows\<close> yields exactly \<open>k\<close> anchors, in ascending
  Y order, each the first staff line of its system.
\<close>

theorem systems_extracted:
  fixes d :: "'e dom" and es :: "'e list"
  assumes svg: "hasSvg d"
    and perm: "mset (stafflines d) = mset es"
    and len: "length es = k * n"
    and tops: "\<forall>i < k * n. Math_round (rectTop d (es ! i)) = lineY start n w i"
    and n2: "2 \<le> n" and w2: "2 \<le> w" and k1: "1 \<le> k"
    and gaps: "\<forall>j. Suc j < k \<longrightarrow>
                 max 40 (Math_round (of_int w * (22 / 10)))
                   < start (Suc j) - (start j + (int n - 1) * w)"
  shows "\<exists>s'. captureRows d s = Inr s' \<and> rows s' = map (\<lambda>j. es ! (j * n)) [0..<k] \<and>
           length (rows s') = k \<and>
           sorted_wrt (\<lambda>a b. rectTop d a < rectTop d b) (rows s')"
proof -
  define G where "G = max 40 (Math_round (of_int w * (22 / 10)))"
  define f where "f = lineY start n w"
  define N where "N = k * n"
  let ?Y = "\<lambda>g. Math_round (rectTop d g)"
  let ?mk = "\<lambda>g. \<lparr>b_y = ?Y g, b_el = g\<rparr>"
  have n0: "0 < n" and k0: "0 < k" using n2 k1 by simp_all
  have w0: "0 \<le> w" using w2 by simp
  have Gw: "w \<le> G" using Math_round_22_ge[OF w0] by (simp add: G_def)
  have G40: "40 \<le> G" by (simp add: G_def)
  have N2: "2 \<le> N"
  proof -
    have "1 * 2 \<le> k * n" using k1 n2 by (rule mult_le_mono)
    then show ?thesis by (simp add: N_def)
  qed
  have kN: "2 * k \<le> N"
  proof -
    have "k * 2 \<le> k * n" using n2 by (intro mult_le_mono) simp_all
    then show ?thesis by (simp add: N_def mult.commute)
  qed
  have Y: "?Y (es ! i) = f i" if "i < N" for i
    using tops that by (simp add: N_def f_def)
  have stepw: "f (Suc i) - f i = w" if "Suc i mod n \<noteq> 0" for i
    using lineY_step[OF n0, of start w i] that by (simp add: f_def)
  have stepg: "G < f (Suc i) - f i" if "Suc i < N" "Suc i mod n = 0" for i
  proof -
    from that(1) have "Suc i div n < k"
      unfolding N_def by (rule less_mult_imp_div_less)
    moreover from that(2) have "Suc i div n = Suc (i div n)" by (simp add: div_Suc)
    ultimately have "Suc (i div n) < k" by simp
    with gaps have "G < start (Suc (i div n)) - (start (i div n) + (int n - 1) * w)"
      by (simp add: G_def)
    then show ?thesis
      using lineY_step[OF n0, of start w i] that(2) by (simp add: f_def)
  qed
  have step2: "f i + 2 \<le> f (Suc i)" if "Suc i < N" for i
  proof (cases "Suc i mod n = 0")
    case True
    from stepg[OF that True] G40 show ?thesis by simp
  next
    case False
    from stepw[OF False] w2 show ?thesis by simp
  qed
  have pairs: "f i + 2 \<le> f j" if "i < j" "j < N" for i j
    using steps_to_pairs[of N f 2 i j] step2 that by simp
  have sb: "sorted_buckets d = map ?mk es"
  proof (rule synthetic_buckets[OF perm])
    fix i j assume ij: "i < j" "j < length es"
    then have "i < N" "j < N" by (simp_all add: len N_def)
    with pairs[OF ij(1)] show "?Y (es ! i) + 2 \<le> ?Y (es ! j)" by (simp add: Y)
  qed
  define bs where "bs = map ?mk es"
  have lb: "length bs = N" by (simp add: bs_def len N_def)
  have by_nth: "b_y (bs ! i) = f i" if "i < N" for i
    using that Y[OF that] by (simp add: bs_def len N_def)
  have el_nth: "b_el (bs ! i) = es ! i" if "i < N" for i
    using that by (simp add: bs_def len N_def)
  have gap_nth: "b_y (bs ! Suc i) - b_y (bs ! i) = f (Suc i) - f i" if "Suc i < N" for i
    using that by (simp add: by_nth)
  have dl: "deltas bs = map (\<lambda>i. f i - f (i - 1)) [1..<N]"
    unfolding deltas_def lb
  proof (rule map_cong[OF refl])
    fix i assume "i \<in> set [1..<N]"
    then have "i < N" "i - 1 < N" by auto
    then show "b_y (bs ! i) - b_y (bs ! (i - 1)) = f i - f (i - 1)" by (simp add: by_nth)
  qed
  have cls: "(f i - f (i - 1) = w) = (i mod n \<noteq> 0)" if "i \<in> set [1..<N]" for i
  proof -
    from that have r: "0 < i" "i < N" by auto
    from gr0_implies_Suc[OF r(1)] obtain i' where "i = Suc i'" ..
    with r(2) have i': "i = Suc i'" "Suc i' < N" by simp_all
    show ?thesis
    proof (cases "Suc i' mod n = 0")
      case True
      from stepg[OF i'(2) True] Gw show ?thesis by (simp add: i' True)
    next
      case False
      from stepw[OF False] show ?thesis by (simp add: i' False)
    qed
  qed
  have lbd: "w \<le> x" if "x \<in> set (deltas bs)" for x
  proof -
    from that obtain i where i: "i \<in> set [1..<N]" "x = f i - f (i - 1)"
      unfolding dl by auto
    then have r: "0 < i" "i < N" by auto
    from gr0_implies_Suc[OF r(1)] obtain i' where "i = Suc i'" ..
    with r(2) have i': "i = Suc i'" "Suc i' < N" by simp_all
    show ?thesis
    proof (cases "Suc i' mod n = 0")
      case True
      from stepg[OF i'(2) True] Gw show ?thesis by (simp add: i i')
    next
      case False
      from stepw[OF False] show ?thesis by (simp add: i i')
    qed
  qed
  have "filter (\<lambda>x. x = w) (deltas bs) = map (\<lambda>i. f i - f (i - 1)) (filter (\<lambda>i. f i - f (i - 1) = w) [1..<N])"
    unfolding dl by (simp add: filter_map comp_def)
  also have "filter (\<lambda>i. f i - f (i - 1) = w) [1..<N] = filter (\<lambda>i. i mod n \<noteq> 0) [1..<N]"
    by (rule filter_cong[OF refl]) (rule cls)
  finally have "length (filter (\<lambda>x. x = w) (deltas bs)) = length (filter (\<lambda>i. i mod n \<noteq> 0) [1..<k * n])"
    by (simp add: N_def)
  then have cnt: "length (filter (\<lambda>x. x = w) (deltas bs)) = N - k"
    by (simp only: count_non_multiples[OF n0 k0] N_def)
  have ld: "length (deltas bs) = N - 1" by (simp add: dl)
  have mid: "(length (deltas bs) - 1) div 2 < length (filter (\<lambda>x. x = w) (deltas bs))"
    unfolding cnt ld using kN N2 k0 by linarith
  have dne: "deltas bs \<noteq> []" using ld N2 by auto
  have med: "median (deltas bs) = w"
    using sort_nth_least[of "deltas bs" w, OF _ mid] lbd dne by (simp add: median_def)
  have gap: "GAP bs = G" by (simp only: GAP_def med G_def)
  have sel: "(i = 0 \<or> GAP bs < b_y (bs ! i) - b_y (bs ! (i - 1))) = (i mod n = 0)"
    if "i \<in> set [0..<length bs]" for i
  proof (cases i)
    case 0
    then show ?thesis by simp
  next
    case (Suc i')
    with that have lt: "Suc i' < N" by (simp add: lb)
    show ?thesis
    proof (cases "Suc i' mod n = 0")
      case True
      from stepg[OF lt True] show ?thesis by (simp add: Suc gap gap_nth[OF lt] True)
    next
      case False
      from stepw[OF False] Gw show ?thesis by (simp add: Suc gap gap_nth[OF lt] False)
    qed
  qed
  have "picked bs = filter (\<lambda>i. i mod n = 0) [0..<length bs]"
    unfolding picked_def by (rule filter_cong[OF refl]) (rule sel)
  then have pk: "picked bs = map (\<lambda>j. j * n) [0..<k]"
    by (simp add: lb N_def filter_multiples[OF n0])
  have "pick_rows bs = map (\<lambda>j. b_el (bs ! (j * n))) [0..<k]"
    by (simp add: pick_rows_picked pk comp_def)
  also have "\<dots> = map (\<lambda>j. es ! (j * n)) [0..<k]"
  proof (rule map_cong[OF refl])
    fix j assume "j \<in> set [0..<k]"
    then have "j < k" by simp
    then have "j * n < k * n" using n0 by simp
    then show "b_el (bs ! (j * n)) = es ! (j * n)" by (simp add: el_nth N_def)
  qed
  finally have pr: "pick_rows (sorted_buckets d) = map (\<lambda>j. es ! (j * n)) [0..<k]"
    by (simp only: sb bs_def)
  obtain s' where s': "captureRows d s = Inr s'" "rows s' = pick_rows (sorted_buckets d)"
    using captureRows_ok[of d s] svg by auto
  have "sorted_wrt (\<lambda>a b. rectTop d a + 40 < rectTop d b) (rows s')"
    unfolding s'(2) by (rule rows_apart)
  then have "sorted_wrt (\<lambda>a b. rectTop d a < rectTop d b) (rows s')"
    by (rule sorted_wrt_mono_rel[rotated]) simp
  with s' pr show ?thesis by (intro exI[of _ s']) simp
qed

theorem systems_extracted_witness:
  "hasSvg score3 \<and> mset (stafflines score3) = mset [0, 1, 2, 3, 4, 5, 6, 7, 8, 9, 10, 11] \<and>
   length [0 :: nat, 1, 2, 3, 4, 5, 6, 7, 8, 9, 10, 11] = 3 * 4 \<and>
   max 40 (Math_round (of_int 10 * (22 / 10))) < (100 :: int) - (0 + (int 4 - 1) * 10) \<and>
   (\<exists>s'. captureRows score3 initial = Inr s' \<and> rows s' = [0, 4, 8] \<and> length (rows s') = 3 \<and>
      sorted_wrt (\<lambda>a b. rectTop score3 a < rectTop score3 b) (rows s'))"
proof -
  let ?es = "[0 :: nat, 1, 2, 3, 4, 5, 6, 7, 8, 9, 10, 11]"
  let ?start = "\<lambda>j. 100 * int j"
  have svg: "hasSvg score3" by (simp add: score3_def)
  have perm: "mset (stafflines score3) = mset ?es" by (simp add: score3_def)
  have len: "length ?es = 3 * 4" by simp
  define P where "P = (\<lambda>i. Math_round (rectTop score3 (?es ! i)) = lineY ?start 4 10 i)"
  have "list_all P [0..<3 * 4]"
    unfolding P_def by code_simp
  then have "\<forall>i < 3 * 4. P i"
    by (simp add: list_all_iff)
  then have tops: "\<forall>i < 3 * 4. Math_round (rectTop score3 (?es ! i)) = lineY ?start 4 10 i"
    unfolding P_def .
  have r: "Math_round (of_int 10 * (22 / 10)) = 22" by code_simp
  have gaps: "\<forall>j. Suc j < 3 \<longrightarrow>
      max 40 (Math_round (of_int 10 * (22 / 10))) < ?start (Suc j) - (?start j + (int 4 - 1) * 10)"
    unfolding r by simp
  have g0: "max 40 (Math_round (of_int 10 * (22 / 10))) < (100 :: int) - (0 + (int 4 - 1) * 10)"
    unfolding r by simp
  from systems_extracted[of score3 ?es 3 4 ?start 10 initial, OF svg perm len tops _ _ _ gaps]
  obtain s' where s': "captureRows score3 initial = Inr s'"
    "rows s' = map (\<lambda>j. ?es ! (j * 4)) [0..<3]" "length (rows s') = 3"
    "sorted_wrt (\<lambda>a b. rectTop score3 a < rectTop score3 b) (rows s')"
    by auto
  have "map (\<lambda>j. ?es ! (j * 4)) [0..<3] = [0, 4, 8]" by code_simp
  with s' have "rows s' = [0, 4, 8]" by simp
  with s' svg perm len g0 show ?thesis by blast
qed

text \<open>
  The claim as it was stated fails. Staff lines at 0, 10, 40 and 50 are two systems of two
  lines each with spacing 10 inside a system and 30 between the systems, and
  \<open>30 \<ge> 2.2 * 10\<close>; but the threshold is \<open>max(40, 22) = 40\<close>, the gap of 30 does not exceed
  it, and extraction yields one anchor instead of two.
\<close>

theorem systems_extracted_counterexample:
  "stafflines tight2 = [0, 1, 2, 3] \<and>
   Math_round (rectTop tight2 0) = 0 \<and> Math_round (rectTop tight2 1) = 10 \<and>
   Math_round (rectTop tight2 2) = 40 \<and> Math_round (rectTop tight2 3) = 50 \<and>
   (22 / 10 :: rat) * 10 \<le> 40 - 10 \<and>
   GAP (sorted_buckets tight2) = 40 \<and>
   captureRows tight2 initial = Inr \<lparr>rows = [0], idx = 0, scrollTarget = None\<rparr>"
proof -
  have "stafflines tight2 = [0, 1, 2, 3]" by (simp add: tight2_def)
  moreover have "Math_round (rectTop tight2 0) = 0" "Math_round (rectTop tight2 1) = 10"
    "Math_round (rectTop tight2 2) = 40" "Math_round (rectTop tight2 3) = 50"
    by code_simp+
  moreover have "(22 / 10 :: rat) * 10 \<le> 40 - 10" by simp
  moreover have "GAP (sorted_buckets tight2) = 40" by code_simp
  moreover have "captureRows tight2 initial = Inr \<lparr>rows = [0], idx = 0, scrollTarget = None\<rparr>"
    by code_simp
  ultimately show ?thesis by blast
qed

text \<open>
  The two other conditions of the amended statement are needed as well. With one staff
  line per system the only gaps are the gaps between systems, so the median is such a gap
  and no gap exceeds the threshold. And a spacing equal to the threshold does not
  separate: the comparison is strict.
\<close>

lemma single_line_systems_merge:
  "captureRows solo2 initial = Inr \<lparr>rows = [0], idx = 0, scrollTarget = None\<rparr>"
  by code_simp

lemma threshold_is_strict:
  "GAP (sorted_buckets edge2) = 44 \<and>
   captureRows edge2 initial = Inr \<lparr>rows = [0], idx = 0, scrollTarget = None\<rparr>"
  by code_simp

end
